theory Spec2Isabelle
  imports Main "HOL-Library.Monad_Syntax"
begin

section \<open>WebSocketSubject: a shallow embedding\<close>

text \<open>
  The theory embeds \<^verbatim>\<open>src/internal/observable/dom/WebSocketSubject.ts\<close>: the subject that
  owns the socket (its \<^verbatim>\<open>source\<close> is undefined; subjects made by \<^verbatim>\<open>lift\<close> only delegate
  to it). Mutation is explicit state passing over one record \<open>ws\<close>. Objects that the
  closures of \<^verbatim>\<open>_connectSocket\<close> capture (the socket, the output Subject) live in stores
  indexed by allocation number, so that a handler of an old socket still reaches the
  Subject it captured after \<^verbatim>\<open>_resetState\<close> has replaced \<^verbatim>\<open>this._output\<close>.
\<close>

subsection \<open>JavaScript values\<close>

text \<open>
  Values sent, received and thrown. \<open>Obj\<close> is a plain object as an association list,
  \<open>TypeError\<close> an instance of it with its message, \<open>Event\<close> a DOM event by type name and
  \<open>CloseEvent\<close> a close event with its \<^verbatim>\<open>wasClean\<close>, \<^verbatim>\<open>code\<close> and \<^verbatim>\<open>reason\<close>.
\<close>

datatype jsval =
    Undefined
  | Null
  | JBool bool
  | Num int
  | Str string
  | Obj "(string \<times> jsval) list"
  | TypeError string
  | Event string
  | CloseEvent bool int string

text \<open>JavaScript truthiness (\<^verbatim>\<open>err && err.code\<close>).\<close>

fun truthy :: "jsval \<Rightarrow> bool" where
  "truthy Undefined = False"
| "truthy Null = False"
| "truthy (JBool b) = b"
| "truthy (Num n) = (n \<noteq> 0)"
| "truthy (Str s) = (s \<noteq> [])"
| "truthy (Obj kvs) = True"
| "truthy (TypeError m) = True"
| "truthy (Event t) = True"
| "truthy (CloseEvent w c r) = True"

text \<open>
  Member access \<^verbatim>\<open>v.k\<close>: \<^verbatim>\<open>undefined\<close> where the value has no such member. The source reads
  a member of a thrown value only behind \<^verbatim>\<open>err &&\<close>, so the access never meets
  \<^verbatim>\<open>undefined\<close> or \<^verbatim>\<open>null\<close>.
\<close>

fun get_prop :: "jsval \<Rightarrow> string \<Rightarrow> jsval" where
  "get_prop (Obj kvs) k = (case map_of kvs k of None \<Rightarrow> Undefined | Some v \<Rightarrow> v)"
| "get_prop (TypeError m) k = (if k = ''message'' then Str m else Undefined)"
| "get_prop (Event t) k = (if k = ''type'' then Str t else Undefined)"
| "get_prop (CloseEvent w c r) k =
     (if k = ''wasClean'' then JBool w
      else if k = ''code'' then Num c
      else if k = ''reason'' then Str r
      else if k = ''type'' then Str ''close''
      else Undefined)"
| "get_prop v k = Undefined"

definition WEBSOCKETSUBJECT_INVALID_ERROR_OBJECT :: string where
  "WEBSOCKETSUBJECT_INVALID_ERROR_OBJECT =
     ''WebSocketSubject.error must be called with an object with an error code, and an optional reason: { code: number, reason: string }''"

subsection \<open>The state\<close>

text \<open>A wire message (\<^verbatim>\<open>WebSocketMessage\<close>), as text.\<close>

type_synonym wire = string

text \<open>
  Modelled from the spec: the transport (\<^verbatim>\<open>WebSocket\<close>) is an external collaborator with
  \<^verbatim>\<open>send\<close>, \<^verbatim>\<open>close\<close> and a \<^verbatim>\<open>readyState\<close> in Connecting (0), Open (1), Closing (2),
  Closed (3). A socket records what was sent and every call of \<^verbatim>\<open>close\<close>. Beside the
  transport's own state it holds what the closures installed on it captured: \<open>observer\<close>
  is the \<^verbatim>\<open>const observer = this._output\<close> of \<^verbatim>\<open>_connectSocket\<close>; \<open>d_isStopped\<close> and \<open>d_closed\<close>
  are the flags of the \<^verbatim>\<open>Subscriber\<close> that this socket's \<^verbatim>\<open>onopen\<close> installs as destination.
\<close>

record socket =
  readyState :: nat
  sent :: "wire list"
  closeCalls :: "(jsval \<times> jsval) list"
  observer :: nat
  d_isStopped :: bool
  d_closed :: bool

text \<open>
  Modelled from the spec: \<^verbatim>\<open>Subject\<close> (the spec's BroadcastHub), not under src/. It
  holds the attached consumers in attach order and whether it has errored or completed.
\<close>

record subject =
  observers :: "nat list"
  isStopped :: bool
  hasError :: bool
  thrownError :: jsval

text \<open>
  Modelled from the spec: \<^verbatim>\<open>ReplaySubject\<close> with unbounded buffer (the spec's
  OutgoingBuffer). It is the destination until the socket opens; it never has an
  observer while it is the destination.
\<close>

record replay =
  buffer :: "jsval list"
  r_isStopped :: bool
  r_hasError :: bool
  r_thrownError :: jsval

text \<open>
  \<^verbatim>\<open>this.destination\<close>: the \<^verbatim>\<open>ReplaySubject\<close>, or the \<^verbatim>\<open>Subscriber\<close> that \<^verbatim>\<open>onopen\<close> of
  the given socket created.
\<close>

datatype destination = Queue replay | Sender nat

datatype notification = Next jsval | Error jsval | Complete

text \<open>
  The finalizers that \<^verbatim>\<open>_subscribe\<close> leaves on the subscriber attached to the output
  Subject: the Subject's own (remove the subscriber from \<open>observers\<close> of that Subject)
  and the closure of lines 377-385.
\<close>

datatype finalizer = RemoveFrom nat | Refcount

text \<open>Modelled from the spec: the flags and finalizers of a \<^verbatim>\<open>Subscriber\<close>.\<close>

record subscriber =
  s_isStopped :: bool
  s_closed :: bool
  finalizers :: "finalizer list"

text \<open>
  A multiplex channel: the unsubscribe-message producer and the filter (each may throw:
  \<open>Inl\<close>), and the subscriber \<^verbatim>\<open>observer\<close> of the consumer of the multiplexed
  Observable, with \<open>o_teardown\<close> telling that the function returned at line 251 is
  registered on it.
\<close>

record channel =
  unsubMsg :: "jsval + jsval"
  messageFilter :: "jsval \<Rightarrow> jsval + bool"
  o_isStopped :: bool
  o_closed :: bool
  o_teardown :: bool

text \<open>
  A consumer: what its observer callbacks received, the subscriber attached to the
  output Subject (\<open>hsub\<close>), and for a multiplex channel the channel. For a plain consumer
  \<open>hsub\<close> wraps the observer itself; for a channel it wraps the observer of lines 237-249.
\<close>

record consumer =
  received :: "notification list"
  hsub :: subscriber
  chan :: "channel option"

text \<open>
  \<^verbatim>\<open>WebSocketSubjectConfig\<close>: the serializer and deserializer may throw (\<open>Inl\<close>); the three
  observers are recorders, present or absent; \<open>WebSocketCtor\<close> is \<open>Some e\<close> when
  constructing the socket throws \<open>e\<close>.
\<close>

record config =
  serializer :: "jsval \<Rightarrow> jsval + wire"
  deserializer :: "wire \<Rightarrow> jsval + jsval"
  openObserver :: bool
  closeObserver :: bool
  closingObserver :: bool
  WebSocketCtor :: "jsval option"

datatype hook = OpenHook | CloseHook jsval | ClosingHook

text \<open>Which producer of which channel asked for a send (a trace of the calls).\<close>

datatype mux_call = SubMsg nat jsval | UnsubMsg nat jsval

text \<open>
  What leaves the subject, in the order in which it happens: a call of a hook observer,
  a call of \<^verbatim>\<open>close\<close> on a socket with its arguments, a notification of a consumer. The
  fields \<open>hooks\<close>, \<open>closeCalls\<close> and \<open>received\<close> keep the same calls per receiver; \<open>events\<close>
  keeps them in one sequence.
\<close>

datatype event = Hooked hook | Closed nat jsval jsval | Notified nat notification

record ws =
  cfg :: config
  p_socket :: "nat option"
  p_output :: nat
  destination :: destination
  sockets :: "nat \<Rightarrow> socket"
  next_socket :: nat
  hubs :: "nat \<Rightarrow> subject"
  next_hub :: nat
  consumers :: "nat \<Rightarrow> consumer"
  next_consumer :: nat
  hooks :: "hook list"
  mux_calls :: "mux_call list"
  events :: "event list"


subsection \<open>Stores, transport calls, \<^verbatim>\<open>_resetState\<close>\<close>

definition sock_upd :: "nat \<Rightarrow> (socket \<Rightarrow> socket) \<Rightarrow> ws \<Rightarrow> ws" where
  "sock_upd k f s = s\<lparr>sockets := (sockets s)(k := f (sockets s k))\<rparr>"

definition hub_upd :: "nat \<Rightarrow> (subject \<Rightarrow> subject) \<Rightarrow> ws \<Rightarrow> ws" where
  "hub_upd h f s = s\<lparr>hubs := (hubs s)(h := f (hubs s h))\<rparr>"

definition consumer_upd :: "nat \<Rightarrow> (consumer \<Rightarrow> consumer) \<Rightarrow> ws \<Rightarrow> ws" where
  "consumer_upd c f s = s\<lparr>consumers := (consumers s)(c := f (consumers s c))\<rparr>"

text \<open>\<^verbatim>\<open>socket.send(data)\<close>: the transport records the message.\<close>

definition socket_send :: "nat \<Rightarrow> wire \<Rightarrow> ws \<Rightarrow> ws" where
  "socket_send k m = sock_upd k (\<lambda>x. x\<lparr>sent := sent x @ [m]\<rparr>)"

text \<open>
  \<^verbatim>\<open>socket.close(code, reason)\<close>: the transport records the call and, when it was
  Connecting or Open, becomes Closing.
\<close>

definition socket_close :: "nat \<Rightarrow> jsval \<Rightarrow> jsval \<Rightarrow> ws \<Rightarrow> ws" where
  "socket_close k code reason s =
     sock_upd k (\<lambda>x. x\<lparr>closeCalls := closeCalls x @ [(code, reason)],
                        readyState := (if readyState x < 2 then 2 else readyState x)\<rparr>)
       (s\<lparr>events := events s @ [Closed k code reason]\<rparr>)"

definition new_subject :: subject where
  "new_subject = \<lparr>observers = [], isStopped = False, hasError = False, thrownError = Null\<rparr>"

definition new_replay :: replay where
  "new_replay = \<lparr>buffer = [], r_isStopped = False, r_hasError = False, r_thrownError = Null\<rparr>"

definition new_subscriber :: subscriber where
  "new_subscriber = \<lparr>s_isStopped = False, s_closed = False, finalizers = []\<rparr>"

text \<open>\<^verbatim>\<open>_resetState\<close> (lines 202-208), for the subject without \<^verbatim>\<open>source\<close>.\<close>

definition resetState :: "ws \<Rightarrow> ws" where
  "resetState s =
     s\<lparr>p_socket := None,
       destination := Queue new_replay,
       hubs := (hubs s)(next_hub s := new_subject),
       p_output := next_hub s,
       next_hub := Suc (next_hub s)\<rparr>"

text \<open>A configured hook observer records the call; an absent one does nothing.\<close>

definition call_hook :: "bool \<Rightarrow> hook \<Rightarrow> ws \<Rightarrow> ws" where
  "call_hook configured h s =
     (if configured then s\<lparr>hooks := hooks s @ [h], events := events s @ [Hooked h]\<rparr> else s)"

subsection \<open>Subscribers and their finalizers\<close>

text \<open>The closure that \<^verbatim>\<open>_subscribe\<close> adds to the subscriber (lines 377-385).\<close>

definition refcount :: "ws \<Rightarrow> ws" where
  "refcount s =
     (if observers (hubs s (p_output s)) = [] then
        resetState
          (case p_socket s of
             None \<Rightarrow> s
           | Some k \<Rightarrow>
               if readyState (sockets s k) = 1 \<or> readyState (sockets s k) = 0
               then socket_close k Undefined Undefined s
               else s)
      else s)"

fun exec_finalizer :: "nat \<Rightarrow> finalizer \<Rightarrow> ws \<Rightarrow> ws" where
  "exec_finalizer c (RemoveFrom h) s = hub_upd h (\<lambda>x. x\<lparr>observers := remove1 c (observers x)\<rparr>) s"
| "exec_finalizer c Refcount s = refcount s"

text \<open>
  Modelled from the spec: \<^verbatim>\<open>Subscriber.unsubscribe\<close>. Once: the subscriber is marked
  stopped and closed, then its finalizers run in the order they were added.
\<close>

definition hsub_unsubscribe :: "nat \<Rightarrow> ws \<Rightarrow> ws" where
  "hsub_unsubscribe c s =
     (let sub = hsub (consumers s c) in
      if s_closed sub then s
      else fold (exec_finalizer c) (finalizers sub)
             (consumer_upd c (\<lambda>x. x\<lparr>hsub := \<lparr>s_isStopped = True, s_closed = True, finalizers = []\<rparr>\<rparr>) s))"

text \<open>
  Modelled from the spec: \<^verbatim>\<open>Subscription.add\<close>. A finalizer added to a closed
  subscription runs at once.
\<close>

definition hsub_add :: "nat \<Rightarrow> finalizer \<Rightarrow> ws \<Rightarrow> ws" where
  "hsub_add c f s =
     (let sub = hsub (consumers s c) in
      if s_closed sub then exec_finalizer c f s
      else consumer_upd c (\<lambda>x. x\<lparr>hsub := sub\<lparr>finalizers := finalizers sub @ [f]\<rparr>\<rparr>) s)"

text \<open>The consumer's observer callback is called.\<close>

definition notify :: "nat \<Rightarrow> notification \<Rightarrow> ws \<Rightarrow> ws" where
  "notify c n s =
     consumer_upd c (\<lambda>x. x\<lparr>received := received x @ [n]\<rparr>)
       (s\<lparr>events := events s @ [Notified c n]\<rparr>)"

definition chan_upd :: "nat \<Rightarrow> (channel \<Rightarrow> channel) \<Rightarrow> ws \<Rightarrow> ws" where
  "chan_upd c f = consumer_upd c (\<lambda>x. x\<lparr>chan := map_option f (chan x)\<rparr>)"

text \<open>
  The function that \<^verbatim>\<open>multiplex\<close> returns as teardown (lines 251-258). \<open>send\<close> is
  \<^verbatim>\<open>self.next\<close>. The teardown runs from \<^verbatim>\<open>unsubscribe\<close> of \<^verbatim>\<open>observer\<close>, or from \<^verbatim>\<open>add\<close> on
  the closed \<^verbatim>\<open>observer\<close>: \<^verbatim>\<open>observer\<close> is stopped, and \<^verbatim>\<open>observer.error(err)\<close> in the catch
  does nothing. On an observer that is not stopped the model gives \<open>None\<close>.
\<close>

definition teardown :: "(jsval \<Rightarrow> ws \<Rightarrow> ws option) \<Rightarrow> nat \<Rightarrow> ws \<Rightarrow> ws option" where
  "teardown send c s =
     (case chan (consumers s c) of
        None \<Rightarrow> Some s
      | Some ch \<Rightarrow>
          do {
            s1 \<leftarrow> (case unsubMsg ch of
                     Inr v \<Rightarrow> send v (s\<lparr>mux_calls := mux_calls s @ [UnsubMsg c v]\<rparr>)
                   | Inl e \<Rightarrow> if o_isStopped ch then Some s else None);
            Some (hsub_unsubscribe c s1)
          })"

text \<open>Modelled from the spec: \<^verbatim>\<open>unsubscribe\<close>, \<^verbatim>\<open>next\<close>, \<^verbatim>\<open>error\<close> and \<^verbatim>\<open>complete\<close> of
  the subscriber \<^verbatim>\<open>observer\<close> of a channel's consumer.\<close>

definition outer_unsubscribe :: "(jsval \<Rightarrow> ws \<Rightarrow> ws option) \<Rightarrow> nat \<Rightarrow> ws \<Rightarrow> ws option" where
  "outer_unsubscribe send c s =
     (case chan (consumers s c) of
        None \<Rightarrow> Some s
      | Some ch \<Rightarrow>
          if o_closed ch then Some s
          else
            let s1 = chan_upd c (\<lambda>x. x\<lparr>o_isStopped := True, o_closed := True\<rparr>) s
            in if o_teardown ch then teardown send c s1 else Some s1)"

definition outer_next :: "nat \<Rightarrow> jsval \<Rightarrow> ws \<Rightarrow> ws" where
  "outer_next c v s =
     (case chan (consumers s c) of
        None \<Rightarrow> s
      | Some ch \<Rightarrow> if o_isStopped ch then s else notify c (Next v) s)"

definition outer_stop :: "(jsval \<Rightarrow> ws \<Rightarrow> ws option) \<Rightarrow> nat \<Rightarrow> notification \<Rightarrow> ws \<Rightarrow> ws option" where
  "outer_stop send c n s =
     (case chan (consumers s c) of
        None \<Rightarrow> Some s
      | Some ch \<Rightarrow>
          if o_isStopped ch then Some s
          else outer_unsubscribe send c
                 (notify c n (chan_upd c (\<lambda>x. x\<lparr>o_isStopped := True\<rparr>) s)))"

definition outer_error :: "(jsval \<Rightarrow> ws \<Rightarrow> ws option) \<Rightarrow> nat \<Rightarrow> jsval \<Rightarrow> ws \<Rightarrow> ws option" where
  "outer_error send c e = outer_stop send c (Error e)"

definition outer_complete :: "(jsval \<Rightarrow> ws \<Rightarrow> ws option) \<Rightarrow> nat \<Rightarrow> ws \<Rightarrow> ws option" where
  "outer_complete send c = outer_stop send c Complete"

text \<open>
  The output Subject calls \<^verbatim>\<open>next\<close>, \<^verbatim>\<open>error\<close> or \<^verbatim>\<open>complete\<close> of the subscriber of consumer
  \<open>c\<close>. For a channel this is the observer of lines 237-249: the filter decides, and a
  throwing filter errors the channel's own \<^verbatim>\<open>observer\<close>.
\<close>

definition consumer_next :: "(jsval \<Rightarrow> ws \<Rightarrow> ws option) \<Rightarrow> nat \<Rightarrow> jsval \<Rightarrow> ws \<Rightarrow> ws option" where
  "consumer_next send c v s =
     (if s_isStopped (hsub (consumers s c)) then Some s
      else case chan (consumers s c) of
             None \<Rightarrow> Some (notify c (Next v) s)
           | Some ch \<Rightarrow>
               (case messageFilter ch v of
                  Inr b \<Rightarrow> Some (if b then outer_next c v s else s)
                | Inl e \<Rightarrow> outer_error send c e s))"

definition consumer_stop :: "(jsval \<Rightarrow> ws \<Rightarrow> ws option) \<Rightarrow> nat \<Rightarrow> notification \<Rightarrow> ws \<Rightarrow> ws option" where
  "consumer_stop send c n s =
     (if s_isStopped (hsub (consumers s c)) then Some s
      else
        let s0 = consumer_upd c (\<lambda>x. x\<lparr>hsub := (hsub x)\<lparr>s_isStopped := True\<rparr>\<rparr>) s in
        do {
          s1 \<leftarrow> (case chan (consumers s0 c) of
                   None \<Rightarrow> Some (notify c n s0)
                 | Some ch \<Rightarrow> outer_stop send c n s0);
          Some (hsub_unsubscribe c s1)
        })"

definition consumer_error :: "(jsval \<Rightarrow> ws \<Rightarrow> ws option) \<Rightarrow> nat \<Rightarrow> jsval \<Rightarrow> ws \<Rightarrow> ws option" where
  "consumer_error send c e = consumer_stop send c (Error e)"

definition consumer_complete :: "(jsval \<Rightarrow> ws \<Rightarrow> ws option) \<Rightarrow> nat \<Rightarrow> ws \<Rightarrow> ws option" where
  "consumer_complete send c = consumer_stop send c Complete"

subsection \<open>The output Subject\<close>

text \<open>One step after the other, stopping at the first that does not return.\<close>

fun each :: "('a \<Rightarrow> 's \<Rightarrow> 's option) \<Rightarrow> 'a list \<Rightarrow> 's \<Rightarrow> 's option" where
  "each f [] s = Some s"
| "each f (x # xs) s = f x s \<bind> each f xs"

text \<open>
  Modelled from the spec: \<^verbatim>\<open>Subject.next\<close> delivers to the consumers attached when the
  call starts, in attach order. \<^verbatim>\<open>Subject.error\<close> and \<^verbatim>\<open>Subject.complete\<close> stop the Subject,
  then take the consumers off \<open>observers\<close> one by one from the front, notifying each as
  it is taken off.
\<close>

definition hub_next :: "(jsval \<Rightarrow> ws \<Rightarrow> ws option) \<Rightarrow> nat \<Rightarrow> jsval \<Rightarrow> ws \<Rightarrow> ws option" where
  "hub_next send h v s =
     (if isStopped (hubs s h) then Some s
      else each (\<lambda>c. consumer_next send c v) (observers (hubs s h)) s)"

definition shift :: "nat \<Rightarrow> ws \<Rightarrow> ws" where
  "shift h = hub_upd h (\<lambda>x. x\<lparr>observers := tl (observers x)\<rparr>)"

definition hub_error :: "(jsval \<Rightarrow> ws \<Rightarrow> ws option) \<Rightarrow> nat \<Rightarrow> jsval \<Rightarrow> ws \<Rightarrow> ws option" where
  "hub_error send h e s =
     (if isStopped (hubs s h) then Some s
      else each (\<lambda>c t. consumer_error send c e (shift h t)) (observers (hubs s h))
             (hub_upd h (\<lambda>x. x\<lparr>isStopped := True, hasError := True, thrownError := e\<rparr>) s))"

definition hub_complete :: "(jsval \<Rightarrow> ws \<Rightarrow> ws option) \<Rightarrow> nat \<Rightarrow> ws \<Rightarrow> ws option" where
  "hub_complete send h s =
     (if isStopped (hubs s h) then Some s
      else each (\<lambda>c t. consumer_complete send c (shift h t)) (observers (hubs s h))
             (hub_upd h (\<lambda>x. x\<lparr>isStopped := True\<rparr>) s))"


subsection \<open>The destination: \<^verbatim>\<open>next\<close>, \<^verbatim>\<open>error\<close>, \<^verbatim>\<open>complete\<close>\<close>

text \<open>
  Modelled from the spec: \<^verbatim>\<open>next\<close>, \<^verbatim>\<open>error\<close> and \<^verbatim>\<open>complete\<close> of the \<^verbatim>\<open>ReplaySubject\<close> while
  it has no observer.
\<close>

definition replay_next :: "replay \<Rightarrow> jsval \<Rightarrow> replay" where
  "replay_next q v = (if r_isStopped q then q else q\<lparr>buffer := buffer q @ [v]\<rparr>)"

definition replay_error :: "replay \<Rightarrow> jsval \<Rightarrow> replay" where
  "replay_error q e =
     (if r_isStopped q then q
      else q\<lparr>r_isStopped := True, r_hasError := True, r_thrownError := e\<rparr>)"

definition replay_complete :: "replay \<Rightarrow> replay" where
  "replay_complete q = (if r_isStopped q then q else q\<lparr>r_isStopped := True\<rparr>)"

text \<open>
  \<^verbatim>\<open>self.next\<close> as seen from inside the error handler of the destination Subscriber
  (lines 310-321): that Subscriber is stopped before its handler runs, and \<^verbatim>\<open>next\<close> of a
  stopped Subscriber does nothing; after \<^verbatim>\<open>_resetState\<close> the destination is a fresh
  \<^verbatim>\<open>ReplaySubject\<close>. A destination Subscriber that is not stopped cannot be met there, and
  the model gives \<open>None\<close> for it.
\<close>

definition send_inert :: "jsval \<Rightarrow> ws \<Rightarrow> ws option" where
  "send_inert v s =
     (case destination s of
        Queue q \<Rightarrow> Some (s\<lparr>destination := Queue (replay_next q v)\<rparr>)
      | Sender k \<Rightarrow> if d_isStopped (sockets s k) then Some s else None)"

text \<open>
  \<^verbatim>\<open>error\<close> of the Subscriber created at lines 299-330 for socket \<open>k\<close>, with the handler
  of lines 310-321 (\<^verbatim>\<open>socket\<close> is \<open>k\<close>, \<^verbatim>\<open>observer\<close> the Subject that \<open>k\<close> captured).
\<close>

definition sender_error :: "nat \<Rightarrow> jsval \<Rightarrow> ws \<Rightarrow> ws option" where
  "sender_error k err s =
     (if d_isStopped (sockets s k) then Some s
      else
        let s0 = sock_upd k (\<lambda>x. x\<lparr>d_isStopped := True\<rparr>) s;
            s1 = call_hook (closingObserver (cfg s0)) ClosingHook s0
        in do {
          s2 \<leftarrow> (if truthy err \<and> truthy (get_prop err ''code'')
                 then Some (socket_close k (get_prop err ''code'') (get_prop err ''reason'') s1)
                 else hub_error send_inert (observer (sockets s1 k))
                        (TypeError WEBSOCKETSUBJECT_INVALID_ERROR_OBJECT) s1);
          Some (sock_upd k (\<lambda>x. x\<lparr>d_closed := True\<rparr>) (resetState s2))
        })"

text \<open>\<^verbatim>\<open>complete\<close> of that Subscriber, with the handler of lines 322-329.\<close>

definition sender_complete :: "nat \<Rightarrow> ws \<Rightarrow> ws" where
  "sender_complete k s =
     (if d_isStopped (sockets s k) then s
      else
        let s0 = sock_upd k (\<lambda>x. x\<lparr>d_isStopped := True\<rparr>) s;
            s1 = call_hook (closingObserver (cfg s0)) ClosingHook s0;
            s2 = socket_close k Undefined Undefined s1
        in sock_upd k (\<lambda>x. x\<lparr>d_closed := True\<rparr>) (resetState s2))"

text \<open>\<^verbatim>\<open>WebSocketSubject.error\<close>, inherited: \<^verbatim>\<open>this.destination.error(err)\<close>.\<close>

definition ws_error :: "jsval \<Rightarrow> ws \<Rightarrow> ws option" where
  "ws_error err s =
     (case destination s of
        Queue q \<Rightarrow> Some (s\<lparr>destination := Queue (replay_error q err)\<rparr>)
      | Sender k \<Rightarrow> sender_error k err s)"

text \<open>\<^verbatim>\<open>WebSocketSubject.complete\<close>, inherited: \<^verbatim>\<open>this.destination.complete()\<close>.\<close>

definition ws_complete :: "ws \<Rightarrow> ws" where
  "ws_complete s =
     (case destination s of
        Queue q \<Rightarrow> s\<lparr>destination := Queue (replay_complete q)\<rparr>
      | Sender k \<Rightarrow> sender_complete k s)"

text \<open>
  \<^verbatim>\<open>next\<close> of the Subscriber created for socket \<open>k\<close>, with the handler of lines 300-309.
  The catch calls \<^verbatim>\<open>this.destination.error(e)\<close>, whatever the destination is then.
\<close>

definition sender_next :: "nat \<Rightarrow> jsval \<Rightarrow> ws \<Rightarrow> ws option" where
  "sender_next k x s =
     (if d_isStopped (sockets s k) then Some s
      else if readyState (sockets s k) = 1 then
        (case serializer (cfg s) x of
           Inr m \<Rightarrow> Some (socket_send k m s)
         | Inl e \<Rightarrow> ws_error e s)
      else Some s)"

text \<open>\<^verbatim>\<open>WebSocketSubject.next\<close>, inherited: \<^verbatim>\<open>this.destination.next(value)\<close>.\<close>

definition ws_next :: "jsval \<Rightarrow> ws \<Rightarrow> ws option" where
  "ws_next v s =
     (case destination s of
        Queue q \<Rightarrow> Some (s\<lparr>destination := Queue (replay_next q v)\<rparr>)
      | Sender k \<Rightarrow> sender_next k v s)"

subsection \<open>\<^verbatim>\<open>_connectSocket\<close> and the socket's handlers\<close>

definition new_socket :: "nat \<Rightarrow> socket" where
  "new_socket h =
     \<lparr>readyState = 0, sent = [], closeCalls = [], observer = h,
      d_isStopped = False, d_closed = False\<rparr>"

text \<open>
  \<^verbatim>\<open>_connectSocket\<close> (lines 262-283): a throwing constructor errors the output Subject;
  otherwise the new socket is Connecting and becomes \<^verbatim>\<open>this._socket\<close>. The handlers it
  installs are the four functions below. The \<^verbatim>\<open>Subscription\<close> of lines 278-283 is never
  returned nor unsubscribed, so its teardown never runs.
\<close>

definition connectSocket :: "ws \<Rightarrow> ws option" where
  "connectSocket s =
     (case WebSocketCtor (cfg s) of
        Some e \<Rightarrow> hub_error ws_next (p_output s) e s
      | None \<Rightarrow>
          Some (s\<lparr>sockets := (sockets s)(next_socket s := new_socket (p_output s)),
                  p_socket := Some (next_socket s),
                  next_socket := Suc (next_socket s)\<rparr>))"

text \<open>
  Modelled from the spec: \<^verbatim>\<open>queue.subscribe(this.destination)\<close> (line 333) replays the
  buffer to the subscriber until the subscriber is closed, then passes on the error or
  completion the \<^verbatim>\<open>ReplaySubject\<close> had received.
\<close>

fun replay_to :: "nat \<Rightarrow> jsval list \<Rightarrow> ws \<Rightarrow> ws option" where
  "replay_to k [] s = Some s"
| "replay_to k (x # xs) s =
     (if d_closed (sockets s k) then Some s else sender_next k x s \<bind> replay_to k xs)"

definition queue_subscribe :: "replay \<Rightarrow> nat \<Rightarrow> ws \<Rightarrow> ws option" where
  "queue_subscribe q k s =
     do {
       s1 \<leftarrow> replay_to k (buffer q) s;
       if r_hasError q then sender_error k (r_thrownError q) s1
       else if r_isStopped q then Some (sender_complete k s1)
       else Some s1
     }"

text \<open>\<^verbatim>\<open>socket.onopen\<close> of socket \<open>k\<close> (lines 285-335).\<close>

definition onopen :: "nat \<Rightarrow> ws \<Rightarrow> ws option" where
  "onopen k s =
     (case p_socket s of
        None \<Rightarrow> Some (resetState (socket_close k Undefined Undefined s))
      | Some j \<Rightarrow>
          let s1 = call_hook (openObserver (cfg s)) OpenHook s;
              queue = destination s1;
              s2 = sock_upd k (\<lambda>x. x\<lparr>d_isStopped := False, d_closed := False\<rparr>)
                     (s1\<lparr>destination := Sender k\<rparr>)
          in (case queue of
                Queue q \<Rightarrow> queue_subscribe q k s2
              | Sender i \<Rightarrow> Some s2))"

text \<open>\<^verbatim>\<open>socket.onerror\<close> of socket \<open>k\<close> (lines 337-340).\<close>

definition onerror :: "nat \<Rightarrow> jsval \<Rightarrow> ws \<Rightarrow> ws option" where
  "onerror k e s = hub_error ws_next (observer (sockets s k)) e (resetState s)"

text \<open>\<^verbatim>\<open>socket.onclose\<close> of socket \<open>k\<close> (lines 342-355).\<close>

definition onclose :: "nat \<Rightarrow> jsval \<Rightarrow> ws \<Rightarrow> ws option" where
  "onclose k e s =
     (let s1 = (if p_socket s = Some k then resetState s else s);
          s2 = call_hook (closeObserver (cfg s1)) (CloseHook e) s1
      in if truthy (get_prop e ''wasClean'')
         then hub_complete ws_next (observer (sockets s k)) s2
         else hub_error ws_next (observer (sockets s k)) e s2)"

text \<open>\<^verbatim>\<open>socket.onmessage\<close> of socket \<open>k\<close> (lines 357-364), for a message with the given data.\<close>

definition onmessage :: "nat \<Rightarrow> wire \<Rightarrow> ws \<Rightarrow> ws option" where
  "onmessage k d s =
     (case deserializer (cfg s) d of
        Inr v \<Rightarrow> hub_next ws_next (observer (sockets s k)) v s
      | Inl err \<Rightarrow> hub_error ws_next (observer (sockets s k)) err s)"

subsection \<open>\<^verbatim>\<open>_subscribe\<close>, \<^verbatim>\<open>subscribe\<close> and \<^verbatim>\<open>multiplex\<close>\<close>

text \<open>
  Modelled from the spec: \<^verbatim>\<open>this._output.subscribe(subscriber)\<close>. A Subject that has
  errored or completed passes that on and attaches nothing; otherwise the subscriber is
  attached last and gets the finalizer that removes it.
\<close>

definition hub_subscribe :: "nat \<Rightarrow> nat \<Rightarrow> ws \<Rightarrow> ws option" where
  "hub_subscribe h c s =
     (if hasError (hubs s h) then consumer_error ws_next c (thrownError (hubs s h)) s
      else if isStopped (hubs s h) then consumer_complete ws_next c s
      else Some (hsub_add c (RemoveFrom h)
                  (hub_upd h (\<lambda>x. x\<lparr>observers := observers x @ [c]\<rparr>) s)))"

text \<open>\<^verbatim>\<open>_subscribe\<close> (lines 368-387) for the subscriber of consumer \<open>c\<close>.\<close>

definition subscribe_internal :: "nat \<Rightarrow> ws \<Rightarrow> ws option" where
  "subscribe_internal c s =
     do {
       s1 \<leftarrow> (if p_socket s = None then connectSocket s else Some s);
       s2 \<leftarrow> hub_subscribe (p_output s1) c s1;
       Some (hsub_add c Refcount s2)
     }"

definition new_consumer :: "channel option \<Rightarrow> consumer" where
  "new_consumer ch = \<lparr>received = [], hsub = new_subscriber, chan = ch\<rparr>"

definition alloc_consumer :: "channel option \<Rightarrow> ws \<Rightarrow> ws" where
  "alloc_consumer ch s =
     s\<lparr>consumers := (consumers s)(next_consumer s := new_consumer ch),
       next_consumer := Suc (next_consumer s)\<rparr>"

text \<open>
  \<^verbatim>\<open>subscribe(observer)\<close> on the WebSocketSubject: a new plain consumer, numbered
  \<open>next_consumer s\<close>, goes through \<^verbatim>\<open>_subscribe\<close>.
\<close>

definition subscribe :: "ws \<Rightarrow> ws option" where
  "subscribe s = subscribe_internal (next_consumer s) (alloc_consumer None s)"

text \<open>
  Subscribing to the Observable that \<^verbatim>\<open>multiplex(subMsg, unsubMsg, messageFilter)\<close>
  returned (lines 230-259): a new channel consumer, numbered \<open>next_consumer s\<close>. The
  teardown returned at line 251 is added to \<^verbatim>\<open>observer\<close>, and runs at once when \<^verbatim>\<open>observer\<close>
  is closed by then.
\<close>

definition multiplex :: "jsval + jsval \<Rightarrow> jsval + jsval \<Rightarrow> (jsval \<Rightarrow> jsval + bool) \<Rightarrow> ws \<Rightarrow> ws option" where
  "multiplex subMsg unsubMsg' messageFilter' s =
     (let c = next_consumer s;
          s0 = alloc_consumer
                 (Some \<lparr>unsubMsg = unsubMsg', messageFilter = messageFilter',
                        o_isStopped = False, o_closed = False, o_teardown = False\<rparr>) s
      in do {
        s1 \<leftarrow> (case subMsg of
                 Inr v \<Rightarrow> ws_next v (s0\<lparr>mux_calls := mux_calls s0 @ [SubMsg c v]\<rparr>)
               | Inl err \<Rightarrow> outer_error ws_next c err s0);
        s2 \<leftarrow> subscribe_internal c s1;
        (case chan (consumers s2 c) of
           None \<Rightarrow> Some s2
         | Some ch \<Rightarrow>
             if o_closed ch then teardown ws_next c s2
             else Some (chan_upd c (\<lambda>x. x\<lparr>o_teardown := True\<rparr>) s2))
      })"

text \<open>The consumer unsubscribes: from the WebSocketSubject, or from its channel.\<close>

definition unsubscribe :: "nat \<Rightarrow> ws \<Rightarrow> ws option" where
  "unsubscribe c s =
     (case chan (consumers s c) of
        None \<Rightarrow> Some (hsub_unsubscribe c s)
      | Some ch \<Rightarrow> outer_unsubscribe ws_next c s)"

text \<open>
  The constructor (lines 167-192) with a configuration: no socket, a fresh output
  Subject, a fresh \<^verbatim>\<open>ReplaySubject\<close> as destination.
\<close>

definition init :: "config \<Rightarrow> ws" where
  "init c =
     \<lparr>cfg = c, p_socket = None, p_output = 0, destination = Queue new_replay,
      sockets = (\<lambda>k. new_socket 0), next_socket = 0,
      hubs = (\<lambda>h. new_subject), next_hub = 1,
      consumers = (\<lambda>c. new_consumer None), next_consumer = 0,
      hooks = [], mux_calls = [], events = []\<rparr>"

subsection \<open>The transport's own moves, and fixtures\<close>

text \<open>The transport changes the \<^verbatim>\<open>readyState\<close> of socket \<open>k\<close> (the handshake ends, the peer closes).\<close>

definition transport_state :: "nat \<Rightarrow> nat \<Rightarrow> ws \<Rightarrow> ws" where
  "transport_state k n = sock_upd k (\<lambda>x. x\<lparr>readyState := n\<rparr>)"

text \<open>A serializer that passes text on and throws every other value back.\<close>

definition demo_serializer :: "jsval \<Rightarrow> jsval + wire" where
  "demo_serializer v = (case v of Str t \<Rightarrow> Inr t | _ \<Rightarrow> Inl v)"

definition demo_deserializer :: "wire \<Rightarrow> jsval + jsval" where
  "demo_deserializer d = Inr (Str d)"

definition demo_cfg :: config where
  "demo_cfg =
     \<lparr>serializer = demo_serializer, deserializer = demo_deserializer,
      openObserver = True, closeObserver = True, closingObserver = True,
      WebSocketCtor = None\<rparr>"

text \<open>One consumer subscribed, the socket Connecting.\<close>

definition demo_connecting :: ws where
  "demo_connecting = the (subscribe (init demo_cfg))"

text \<open>One consumer subscribed, the socket Open and its open event handled.\<close>

definition demo_open :: ws where
  "demo_open = the (onopen 0 (transport_state 0 1 demo_connecting))"

text \<open>
  The only consumer has unsubscribed while the socket was Connecting; a value was
  passed to \<^verbatim>\<open>next\<close> afterwards.
\<close>

definition demo_torn :: ws where
  "demo_torn = the (unsubscribe 0 demo_connecting \<bind> ws_next (Str ''late''))"

definition transport :: "nat \<Rightarrow> nat \<Rightarrow> ws \<Rightarrow> ws option" where
  "transport k n s = Some (transport_state k n s)"

subsection \<open>Notions for stating the properties\<close>

text \<open>
  The destination is inert: the buffer, or a sender that is stopped. A send then
  cannot reach the error handler of the sender.
\<close>

definition inert :: "ws \<Rightarrow> bool" where
  "inert s = (case destination s of Queue q \<Rightarrow> True | Sender k \<Rightarrow> d_isStopped (sockets s k))"

text \<open>The serializer throws on no value.\<close>

definition encodes_all :: "config \<Rightarrow> bool" where
  "encodes_all c = (\<forall>v. \<exists>m. serializer c v = Inr m)"

text \<open>No send can fail: the serializer throws on no value, or the destination is the
  buffer.\<close>

definition calm :: "ws \<Rightarrow> bool" where
  "calm s = (encodes_all (cfg s) \<or> (\<exists>q. destination s = Queue q))"

text \<open>
  The effect of a notification on the consumer's own record, as a function of the
  record: \<open>unsub_sub\<close> is what \<^verbatim>\<open>unsubscribe\<close> leaves of a subscriber; \<open>close_rec\<close> what
  \<^verbatim>\<open>unsubscribe\<close> of a channel's \<^verbatim>\<open>observer\<close> leaves; \<open>ostop_rec\<close> and \<open>onext_rec\<close> what
  \<^verbatim>\<open>error\<close> or \<^verbatim>\<open>complete\<close>, and \<^verbatim>\<open>next\<close>, of that \<^verbatim>\<open>observer\<close> leave; \<open>stop_rec\<close> and \<open>next_rec\<close>
  what a notification from the output Subject leaves. \<open>unsub_calls\<close>, \<open>close_calls\<close>,
  \<open>stop_calls\<close> and \<open>next_calls\<close> are the unsubscribe messages the channel sends then.
\<close>

definition unsub_sub :: "subscriber \<Rightarrow> subscriber" where
  "unsub_sub sub =
     (if s_closed sub then sub else \<lparr>s_isStopped = True, s_closed = True, finalizers = []\<rparr>)"

definition close_rec :: "consumer \<Rightarrow> consumer" where
  "close_rec r =
     (case chan r of
        None \<Rightarrow> r
      | Some ch \<Rightarrow>
          if o_closed ch then r
          else r\<lparr>chan := Some (ch\<lparr>o_isStopped := True, o_closed := True\<rparr>),
                 hsub := (if o_teardown ch then unsub_sub (hsub r) else hsub r)\<rparr>)"

fun msg_call :: "nat \<Rightarrow> jsval + jsval \<Rightarrow> mux_call list" where
  "msg_call c (Inr v) = [UnsubMsg c v]"
| "msg_call c (Inl e) = []"

definition unsub_calls :: "nat \<Rightarrow> consumer \<Rightarrow> mux_call list" where
  "unsub_calls c r =
     (case chan r of
        None \<Rightarrow> []
      | Some ch \<Rightarrow>
          if \<not> o_closed ch \<and> o_teardown ch then msg_call c (unsubMsg ch) else [])"

definition ostop_rec :: "notification \<Rightarrow> consumer \<Rightarrow> consumer" where
  "ostop_rec n r =
     (case chan r of
        None \<Rightarrow> r
      | Some ch \<Rightarrow>
          if o_isStopped ch then r
          else close_rec (r\<lparr>chan := Some (ch\<lparr>o_isStopped := True\<rparr>),
                            received := received r @ [n]\<rparr>))"

definition onext_rec :: "jsval \<Rightarrow> consumer \<Rightarrow> consumer" where
  "onext_rec v r =
     (case chan r of
        None \<Rightarrow> r
      | Some ch \<Rightarrow> if o_isStopped ch then r else r\<lparr>received := received r @ [Next v]\<rparr>)"

definition close_calls :: "nat \<Rightarrow> consumer \<Rightarrow> mux_call list" where
  "close_calls c r =
     (case chan r of
        None \<Rightarrow> []
      | Some ch \<Rightarrow> if o_isStopped ch then [] else unsub_calls c r)"

definition stop_rec :: "notification \<Rightarrow> consumer \<Rightarrow> consumer" where
  "stop_rec n r =
     (if s_isStopped (hsub r) then r
      else
        let r0 = r\<lparr>hsub := (hsub r)\<lparr>s_isStopped := True\<rparr>\<rparr>;
            r1 = (case chan r0 of
                    None \<Rightarrow> r0\<lparr>received := received r0 @ [n]\<rparr>
                  | Some ch \<Rightarrow> ostop_rec n r0)
        in r1\<lparr>hsub := unsub_sub (hsub r1)\<rparr>)"

definition stop_calls :: "nat \<Rightarrow> consumer \<Rightarrow> mux_call list" where
  "stop_calls c r = (if s_isStopped (hsub r) then [] else close_calls c r)"

definition next_rec :: "jsval \<Rightarrow> consumer \<Rightarrow> consumer" where
  "next_rec v r =
     (if s_isStopped (hsub r) then r
      else
        case chan r of
          None \<Rightarrow> r\<lparr>received := received r @ [Next v]\<rparr>
        | Some ch \<Rightarrow>
            (case messageFilter ch v of
               Inr b \<Rightarrow> if b then onext_rec v r else r
             | Inl e \<Rightarrow> ostop_rec (Error e) r))"

definition next_calls :: "nat \<Rightarrow> jsval \<Rightarrow> consumer \<Rightarrow> mux_call list" where
  "next_calls c v r =
     (if s_isStopped (hsub r) then []
      else case chan r of
             None \<Rightarrow> []
           | Some ch \<Rightarrow> (case messageFilter ch v of Inr b \<Rightarrow> [] | Inl e \<Rightarrow> close_calls c r))"

text \<open>A consumer that a notification would still reach.\<close>

definition live :: "consumer \<Rightarrow> bool" where
  "live r \<longleftrightarrow>
     \<not> s_isStopped (hsub r) \<and> (case chan r of None \<Rightarrow> True | Some ch \<Rightarrow> \<not> o_isStopped ch)"

text \<open>
  What stays as it is, or only grows, while consumers are notified and their
  finalizers run: the configuration, the hooks called, the allocation counters, what
  the sockets captured, the flags of the Subjects allocated so far; a close call that is
  added has no arguments; \<^verbatim>\<open>this._socket\<close> stays or is cleared; a closed subscriber stays
  closed, and only a closed subscriber leaves the \<open>observers\<close> of a Subject.
\<close>

definition frame :: "ws \<Rightarrow> ws \<Rightarrow> bool" where
  "frame s s' \<longleftrightarrow>
     cfg s' = cfg s \<and> hooks s' = hooks s
     \<and> next_consumer s' = next_consumer s \<and> next_socket s' = next_socket s
     \<and> next_hub s \<le> next_hub s'
     \<and> (p_socket s' = p_socket s \<or> p_socket s' = None)
     \<and> (\<forall>k. observer (sockets s' k) = observer (sockets s k)
            \<and> d_isStopped (sockets s' k) = d_isStopped (sockets s k)
            \<and> d_closed (sockets s' k) = d_closed (sockets s k)
            \<and> set (closeCalls (sockets s' k))
                \<subseteq> insert (Undefined, Undefined) (set (closeCalls (sockets s k))))
     \<and> (\<forall>h<next_hub s. isStopped (hubs s' h) = isStopped (hubs s h)
            \<and> hasError (hubs s' h) = hasError (hubs s h)
            \<and> thrownError (hubs s' h) = thrownError (hubs s h))
     \<and> (\<forall>y. s_closed (hsub (consumers s y)) \<longrightarrow> s_closed (hsub (consumers s' y)))
     \<and> (\<forall>h<next_hub s.
            (distinct (observers (hubs s h)) \<longrightarrow> distinct (observers (hubs s' h)))
            \<and> (\<forall>y\<in>set (observers (hubs s h)).
                   y \<in> set (observers (hubs s' h)) \<or> s_closed (hsub (consumers s' y))))"

text \<open>A step that sends nothing: moreover the destination stays or becomes a fresh
  buffer, and nothing is sent on any socket.\<close>

definition pframe :: "ws \<Rightarrow> ws \<Rightarrow> bool" where
  "pframe s s' \<longleftrightarrow>
     frame s s'
     \<and> (destination s' = destination s \<or> destination s' = Queue new_replay)
     \<and> (\<forall>k. sent (sockets s' k) = sent (sockets s k))"

definition stable :: "(ws \<Rightarrow> bool) \<Rightarrow> bool" where
  "stable I \<longleftrightarrow>
     (\<forall>s s'. pframe s s' \<longrightarrow> I s \<longrightarrow> I s') \<and> (\<forall>s h f. I s \<longrightarrow> I (hub_upd h f s))"

text \<open>
  A send is quiet under \<open>I\<close>: from a state in \<open>I\<close> it returns, stays in \<open>I\<close>, and touches
  neither consumers nor Subjects nor the trace of channel messages.
\<close>

definition quiet_send :: "(ws \<Rightarrow> bool) \<Rightarrow> (jsval \<Rightarrow> ws \<Rightarrow> ws option) \<Rightarrow> bool" where
  "quiet_send I send \<longleftrightarrow>
     (\<forall>v s. I s \<longrightarrow>
        (\<exists>s'. send v s = Some s' \<and> I s' \<and> frame s s'
              \<and> consumers s' = consumers s \<and> hubs s' = hubs s \<and> next_hub s' = next_hub s
              \<and> mux_calls s' = mux_calls s \<and> p_socket s' = p_socket s
              \<and> p_output s' = p_output s))"


text \<open>The channel that asked for a send, and the part of a trace that is of channel \<open>c\<close>.\<close>

fun call_of :: "mux_call \<Rightarrow> nat" where
  "call_of (SubMsg c v) = c"
| "call_of (UnsubMsg c v) = c"

definition calls_of :: "nat \<Rightarrow> mux_call list \<Rightarrow> mux_call list" where
  "calls_of c xs = filter (\<lambda>x. call_of x = c) xs"

subsection \<open>More fixtures\<close>

text \<open>A serializer that rejects every value with an error object that carries a code.\<close>

definition coded_serializer :: "jsval \<Rightarrow> jsval + wire" where
  "coded_serializer v = Inl (Obj [(''name'', Str ''DataCloneError''), (''code'', Num 25)])"

definition coded_cfg :: config where
  "coded_cfg = demo_cfg\<lparr>serializer := coded_serializer\<rparr>"

definition coded_open :: ws where
  "coded_open = the (subscribe (init coded_cfg) \<bind> transport 0 1 \<bind> onopen 0)"

definition coded_failed :: ws where
  "coded_failed = the (ws_next (Num 1) coded_open)"

text \<open>
  A value is passed to \<^verbatim>\<open>next\<close> while idle; a consumer subscribes and unsubscribes; a
  second consumer subscribes, a second value is passed, and the second socket opens.
\<close>

definition demo_reopened :: ws where
  "demo_reopened =
     the (ws_next (Str ''a'') (init demo_cfg) \<bind> subscribe \<bind> unsubscribe 0 \<bind> subscribe
          \<bind> ws_next (Str ''b'') \<bind> transport 1 1 \<bind> onopen 1)"

text \<open>Three values are passed while idle, the second one not text; then the socket opens.\<close>

definition demo_rejected :: ws where
  "demo_rejected =
     the (ws_next (Str ''a'') (init demo_cfg) \<bind> ws_next (Num 3) \<bind> ws_next (Str ''b'')
          \<bind> subscribe \<bind> transport 0 1 \<bind> onopen 0)"

text \<open>A clean close event, and an unclean one.\<close>

definition clean_close :: jsval where
  "clean_close = CloseEvent True 1000 ''''"

definition unclean_close :: jsval where
  "unclean_close = CloseEvent False 1006 ''''"

text \<open>
  What a channel's consumer receives for an inbound value, by what its filter does with
  the value.
\<close>

fun outcome :: "jsval \<Rightarrow> jsval + bool \<Rightarrow> notification list" where
  "outcome v (Inr b) = (if b then [Next v] else [])"
| "outcome v (Inl e) = [Error e]"

text \<open>Channel \<open>c\<close>, with record \<open>ch\<close>, is attached to Subject \<open>h\<close> and listening.\<close>

definition on_channel :: "ws \<Rightarrow> nat \<Rightarrow> nat \<Rightarrow> channel \<Rightarrow> bool" where
  "on_channel s h c ch \<longleftrightarrow>
     c \<in> set (observers (hubs s h)) \<and> chan (consumers s c) = Some ch \<and> \<not> o_isStopped ch
     \<and> \<not> s_isStopped (hsub (consumers s c)) \<and> \<not> s_closed (hsub (consumers s c))"

text \<open>A serializer that throws on no value, and two filters: the first throws on the
  text x and rejects everything else, the second accepts the text y only.\<close>

definition text_serializer :: "jsval \<Rightarrow> jsval + wire" where
  "text_serializer v = Inr (case v of Str t \<Rightarrow> t | _ \<Rightarrow> ''null'')"

definition mux_cfg :: config where
  "mux_cfg = demo_cfg\<lparr>serializer := text_serializer\<rparr>"

definition filter_x :: "jsval \<Rightarrow> jsval + bool" where
  "filter_x v = (if v = Str ''x'' then Inl (Str ''boom'') else Inr False)"

definition filter_y :: "jsval \<Rightarrow> jsval + bool" where
  "filter_y v = Inr (v = Str ''y'')"

text \<open>An open connection with a plain consumer 0 and the channels 1 and 2.\<close>

definition demo_mux :: ws where
  "demo_mux =
     the (subscribe (init mux_cfg) \<bind> transport 0 1 \<bind> onopen 0
          \<bind> multiplex (Inr (Str ''subX'')) (Inr (Str ''unsubX'')) filter_x
          \<bind> multiplex (Inr (Str ''subY'')) (Inr (Str ''unsubY'')) filter_y)"

text \<open>The records of the two channels while they listen.\<close>

definition chan_x :: channel where
  "chan_x = \<lparr>unsubMsg = Inr (Str ''unsubX''), messageFilter = filter_x,
             o_isStopped = False, o_closed = False, o_teardown = True\<rparr>"

definition chan_y :: channel where
  "chan_y = \<lparr>unsubMsg = Inr (Str ''unsubY''), messageFilter = filter_y,
             o_isStopped = False, o_closed = False, o_teardown = True\<rparr>"




text \<open>
  On \<open>demo_open\<close>, a channel whose subscribe-message producer throws is subscribed to:
  the record \<^verbatim>\<open>multiplex\<close> starts channel 1 with, the state after the catch of line 233,
  the state after \<^verbatim>\<open>self.subscribe\<close> of line 237, and the state at the end.
\<close>

definition chan_boom :: channel where
  "chan_boom = \<lparr>unsubMsg = Inr (Str ''unsubX''), messageFilter = filter_x,
                o_isStopped = False, o_closed = False, o_teardown = False\<rparr>"

definition demo_boom_errored :: ws where
  "demo_boom_errored
   = the (outer_error ws_next 1 (Str ''boom'') (alloc_consumer (Some chan_boom) demo_open))"

definition demo_boom_attached :: ws where
  "demo_boom_attached = the (subscribe_internal 1 demo_boom_errored)"

definition demo_boom :: ws where
  "demo_boom = the (multiplex (Inl (Str ''boom'')) (Inr (Str ''unsubX'')) filter_x demo_open)"

text \<open>
  The open connection of \<open>demo_open\<close>, whose serializer accepts texts only, with the
  channels 1 and 2 as in \<open>demo_mux\<close>, except that the unsubscribe message of channel 1 is
  a number; and the state after the inbound text x.
\<close>

definition chan_x_num :: channel where
  "chan_x_num = \<lparr>unsubMsg = Inr (Num 3), messageFilter = filter_x,
                 o_isStopped = False, o_closed = False, o_teardown = True\<rparr>"

definition demo_mux_num :: ws where
  "demo_mux_num =
     the (subscribe (init demo_cfg) \<bind> transport 0 1 \<bind> onopen 0
          \<bind> multiplex (Inr (Str ''subX'')) (Inr (Num 3)) filter_x
          \<bind> multiplex (Inr (Str ''subY'')) (Inr (Str ''unsubY'')) filter_y)"

definition demo_mux_num_x :: ws where
  "demo_mux_num_x = the (onmessage 0 ''x'' demo_mux_num)"

subsection \<open>What every step preserves\<close>

text \<open>The calls that a stretch of \<open>events\<close> holds for one receiver.\<close>

fun note_of :: "nat \<Rightarrow> event \<Rightarrow> notification list" where
  "note_of c (Notified d n) = (if d = c then [n] else [])"
| "note_of c (Hooked h) = []"
| "note_of c (Closed k a b) = []"

definition notes_of :: "nat \<Rightarrow> event list \<Rightarrow> notification list" where
  "notes_of c es = concat (map (note_of c) es)"

fun close_of :: "nat \<Rightarrow> event \<Rightarrow> (jsval \<times> jsval) list" where
  "close_of k (Closed j a b) = (if j = k then [(a, b)] else [])"
| "close_of k (Hooked h) = []"
| "close_of k (Notified d n) = []"

definition closes_of :: "nat \<Rightarrow> event list \<Rightarrow> (jsval \<times> jsval) list" where
  "closes_of k es = concat (map (close_of k) es)"

fun hook_of :: "event \<Rightarrow> hook list" where
  "hook_of (Hooked h) = [h]"
| "hook_of (Closed j a b) = []"
| "hook_of (Notified d n) = []"

definition hooks_of :: "event list \<Rightarrow> hook list" where
  "hooks_of es = concat (map hook_of es)"

text \<open>
  A consumer that no notification reaches any more: a plain consumer whose subscriber is
  stopped, a channel whose \<^verbatim>\<open>observer\<close> is stopped.
\<close>

definition frozen :: "consumer \<Rightarrow> bool" where
  "frozen r = (case chan r of None \<Rightarrow> s_isStopped (hsub r) | Some ch \<Rightarrow> o_isStopped ch)"

text \<open>
  How the record of a consumer changes while consumers are notified and unsubscribed:
  flags only go up, finalizers only go, a channel keeps its producers and its filter.
\<close>

definition rec_step :: "consumer \<Rightarrow> consumer \<Rightarrow> bool" where
  "rec_step r r' \<longleftrightarrow>
     (s_isStopped (hsub r) \<longrightarrow> s_isStopped (hsub r'))
     \<and> (s_closed (hsub r) \<longrightarrow> s_closed (hsub r'))
     \<and> ((s_closed (hsub r) \<longrightarrow> s_isStopped (hsub r))
          \<longrightarrow> (s_closed (hsub r') \<longrightarrow> s_isStopped (hsub r')))
     \<and> set (finalizers (hsub r')) \<subseteq> set (finalizers (hsub r))
     \<and> (case chan r of
           None \<Rightarrow> chan r' = None
         | Some ch \<Rightarrow>
             (case chan r' of
                None \<Rightarrow> False
              | Some ch' \<Rightarrow>
                  unsubMsg ch' = unsubMsg ch \<and> messageFilter ch' = messageFilter ch
                  \<and> o_teardown ch' = o_teardown ch
                  \<and> (o_isStopped ch \<longrightarrow> o_isStopped ch')
                  \<and> (o_closed ch \<longrightarrow> o_closed ch')))"

text \<open>
  Consumer \<open>c\<close> is listed at most once by a Subject, and only while its subscriber is
  open and holds the finalizer that removes it from that Subject.
\<close>

definition registered_ok :: "ws \<Rightarrow> nat \<Rightarrow> bool" where
  "registered_ok s c \<longleftrightarrow>
     (\<forall>h. count_list (observers (hubs s h)) c
           \<le> (if \<not> s_closed (hsub (consumers s c))
                   \<and> RemoveFrom h \<in> set (finalizers (hsub (consumers s c)))
               then 1 else 0))"

text \<open>
  From \<open>s\<close> to \<open>s'\<close> consumers were notified and unsubscribed, sockets closed and hooks
  called, and nothing else: the events added are all in \<open>P\<close> and are what \<open>hooks\<close>,
  \<open>closeCalls\<close> and \<open>received\<close> have gained; a consumer that no notification reaches has
  received nothing; each record has changed by \<open>rec_step\<close>; for each channel the
  unsubscribe message that is still to be passed to \<^verbatim>\<open>next\<close>, together with the calls
  already made for it, stays the same; registrations stay in order; and no Subject lists
  a consumer more often than before.
\<close>

definition grows :: "(event \<Rightarrow> bool) \<Rightarrow> ws \<Rightarrow> ws \<Rightarrow> bool" where
  "grows P s s' \<longleftrightarrow>
     cfg s' = cfg s \<and> next_consumer s' = next_consumer s
     \<and> (\<exists>es. events s' = events s @ es \<and> (\<forall>e\<in>set es. P e)
            \<and> hooks s' = hooks s @ hooks_of es
            \<and> (\<forall>k. closeCalls (sockets s' k) = closeCalls (sockets s k) @ closes_of k es)
            \<and> (\<forall>c. received (consumers s' c) = received (consumers s c) @ notes_of c es
                  \<and> (frozen (consumers s c) \<longrightarrow> notes_of c es = [])))
     \<and> (\<forall>c. rec_step (consumers s c) (consumers s' c))
     \<and> (\<forall>c. calls_of c (mux_calls s') @ unsub_calls c (consumers s' c)
             = calls_of c (mux_calls s) @ unsub_calls c (consumers s c))
     \<and> (\<forall>c. registered_ok s c \<longrightarrow> registered_ok s' c)
     \<and> (\<forall>h c. count_list (observers (hubs s' h)) c \<le> count_list (observers (hubs s h)) c)"

text \<open>The filter of the consumer lets the value through (a plain consumer has none).\<close>

definition passes :: "consumer \<Rightarrow> jsval \<Rightarrow> bool" where
  "passes r v = (case chan r of None \<Rightarrow> True | Some ch \<Rightarrow> messageFilter ch v = Inr True)"

text \<open>
  The filter of the consumer does not throw on \<open>v\<close>, or its unsubscribe-message producer
  throws, or the serializer accepts its unsubscribe message; and every consumer attached
  to Subject \<open>h\<close> is so.
\<close>

definition unsub_ok :: "config \<Rightarrow> consumer \<Rightarrow> jsval \<Rightarrow> bool" where
  "unsub_ok cf r v =
     (case chan r of
        None \<Rightarrow> True
      | Some ch \<Rightarrow>
          isl (messageFilter ch v) \<longrightarrow> \<not> isl (unsubMsg ch)
          \<longrightarrow> \<not> isl (serializer cf (projr (unsubMsg ch))))"

definition unsub_encodes :: "ws \<Rightarrow> nat \<Rightarrow> jsval \<Rightarrow> bool" where
  "unsub_encodes s h v \<longleftrightarrow>
     (\<forall>c\<in>set (observers (hubs s h)). unsub_ok (cfg s) (consumers s c) v)"

text \<open>
  The channels of \<open>demo_mux\<close> on the connection of \<open>demo_open\<close>, whose serializer accepts
  texts only.
\<close>

definition demo_mux_text :: ws where
  "demo_mux_text =
     the (subscribe (init demo_cfg) \<bind> transport 0 1 \<bind> onopen 0
          \<bind> multiplex (Inr (Str ''subX'')) (Inr (Str ''unsubX'')) filter_x
          \<bind> multiplex (Inr (Str ''subY'')) (Inr (Str ''unsubY'')) filter_y)"

section \<open>Properties\<close>

subsection \<open>Evaluating the fixtures\<close>

lemmas model_defs =
  demo_serializer_def demo_deserializer_def demo_cfg_def transport_state_def init_def
  subscribe_def subscribe_internal_def alloc_consumer_def new_consumer_def new_subscriber_def
  new_subject_def new_replay_def new_socket_def connectSocket_def hub_subscribe_def hsub_add_def
  hub_upd_def consumer_upd_def sock_upd_def ws_next_def sender_next_def replay_next_def
  onopen_def queue_subscribe_def call_hook_def socket_send_def socket_close_def resetState_def
  refcount_def hsub_unsubscribe_def unsubscribe_def

lemma demo_connecting_eq: "subscribe (init demo_cfg) = Some demo_connecting"
  by (simp add: demo_connecting_def model_defs)

lemma demo_open_eq: "onopen 0 (transport_state 0 1 demo_connecting) = Some demo_open"
  by (simp add: demo_open_def demo_connecting_def model_defs)

lemma demo_open_destination: "destination demo_open = Sender 0"
  by (simp add: demo_open_def demo_connecting_def model_defs)

lemma demo_torn_socket: "p_socket demo_torn = None"
  by (simp add: demo_torn_def demo_connecting_def model_defs)

lemma demo_torn_buffer: "destination demo_torn = Queue (new_replay\<lparr>buffer := [Str ''late'']\<rparr>)"
  by (simp add: demo_torn_def demo_connecting_def model_defs)

subsection \<open>Selectors over the store updates\<close>

lemma sock_upd_sel [simp]:
  "cfg (sock_upd k f s) = cfg s" "p_socket (sock_upd k f s) = p_socket s"
  "p_output (sock_upd k f s) = p_output s" "destination (sock_upd k f s) = destination s"
  "hubs (sock_upd k f s) = hubs s" "consumers (sock_upd k f s) = consumers s"
  "hooks (sock_upd k f s) = hooks s" "mux_calls (sock_upd k f s) = mux_calls s"
  "next_socket (sock_upd k f s) = next_socket s" "next_hub (sock_upd k f s) = next_hub s"
  "next_consumer (sock_upd k f s) = next_consumer s"
  "sockets (sock_upd k f s) = (sockets s)(k := f (sockets s k))"
  by (simp_all add: sock_upd_def)

lemma hub_upd_sel [simp]:
  "cfg (hub_upd h f s) = cfg s" "p_socket (hub_upd h f s) = p_socket s"
  "p_output (hub_upd h f s) = p_output s" "destination (hub_upd h f s) = destination s"
  "sockets (hub_upd h f s) = sockets s" "consumers (hub_upd h f s) = consumers s"
  "hooks (hub_upd h f s) = hooks s" "mux_calls (hub_upd h f s) = mux_calls s"
  "next_socket (hub_upd h f s) = next_socket s" "next_hub (hub_upd h f s) = next_hub s"
  "next_consumer (hub_upd h f s) = next_consumer s"
  "hubs (hub_upd h f s) = (hubs s)(h := f (hubs s h))"
  by (simp_all add: hub_upd_def)

lemma consumer_upd_sel [simp]:
  "cfg (consumer_upd c f s) = cfg s" "p_socket (consumer_upd c f s) = p_socket s"
  "p_output (consumer_upd c f s) = p_output s" "destination (consumer_upd c f s) = destination s"
  "sockets (consumer_upd c f s) = sockets s" "hubs (consumer_upd c f s) = hubs s"
  "hooks (consumer_upd c f s) = hooks s" "mux_calls (consumer_upd c f s) = mux_calls s"
  "next_socket (consumer_upd c f s) = next_socket s" "next_hub (consumer_upd c f s) = next_hub s"
  "next_consumer (consumer_upd c f s) = next_consumer s"
  "consumers (consumer_upd c f s) = (consumers s)(c := f (consumers s c))"
  by (simp_all add: consumer_upd_def)

lemma call_hook_sel [simp]:
  "cfg (call_hook b x s) = cfg s" "p_socket (call_hook b x s) = p_socket s"
  "p_output (call_hook b x s) = p_output s" "destination (call_hook b x s) = destination s"
  "sockets (call_hook b x s) = sockets s" "hubs (call_hook b x s) = hubs s"
  "consumers (call_hook b x s) = consumers s" "mux_calls (call_hook b x s) = mux_calls s"
  "next_socket (call_hook b x s) = next_socket s" "next_hub (call_hook b x s) = next_hub s"
  "next_consumer (call_hook b x s) = next_consumer s"
  "hooks (call_hook b x s) = hooks s @ (if b then [x] else [])"
  by (simp_all add: call_hook_def)

lemma resetState_sel [simp]:
  "cfg (resetState s) = cfg s" "p_socket (resetState s) = None"
  "p_output (resetState s) = next_hub s" "destination (resetState s) = Queue new_replay"
  "sockets (resetState s) = sockets s" "consumers (resetState s) = consumers s"
  "hooks (resetState s) = hooks s" "mux_calls (resetState s) = mux_calls s"
  "next_socket (resetState s) = next_socket s" "next_hub (resetState s) = Suc (next_hub s)"
  "next_consumer (resetState s) = next_consumer s"
  "hubs (resetState s) = (hubs s)(next_hub s := new_subject)"
  by (simp_all add: resetState_def)

subsection \<open>Frames\<close>

lemma frame_refl [simp]: "frame s s"
  by (auto simp: frame_def)

lemma pframe_refl [simp]: "pframe s s"
  by (simp add: pframe_def)

lemma frame_trans:
  assumes "frame s t" and "frame t u"
  shows "frame s u"
proof -
  have cc: "set (closeCalls (sockets u k))
              \<subseteq> insert (Undefined, Undefined) (set (closeCalls (sockets s k)))" for k
  proof -
    have "set (closeCalls (sockets u k))
            \<subseteq> insert (Undefined, Undefined) (set (closeCalls (sockets t k)))"
      using assms(2) by (simp add: frame_def)
    moreover have "set (closeCalls (sockets t k))
            \<subseteq> insert (Undefined, Undefined) (set (closeCalls (sockets s k)))"
      using assms(1) by (simp add: frame_def)
    ultimately show ?thesis by blast
  qed
  have hb: "isStopped (hubs u h) = isStopped (hubs s h)
            \<and> hasError (hubs u h) = hasError (hubs s h)
            \<and> thrownError (hubs u h) = thrownError (hubs s h)" if "h < next_hub s" for h
  proof -
    have "h < next_hub t" using assms(1) that by (simp add: frame_def)
    then show ?thesis using assms that by (simp add: frame_def)
  qed
  have ps: "p_socket u = p_socket s \<or> p_socket u = None"
    using assms by (auto simp: frame_def)
  have cl: "s_closed (hsub (consumers u y))" if "s_closed (hsub (consumers s y))" for y
    using assms that by (simp add: frame_def)
  have ob: "(distinct (observers (hubs s h)) \<longrightarrow> distinct (observers (hubs u h)))
            \<and> (\<forall>y\<in>set (observers (hubs s h)).
                   y \<in> set (observers (hubs u h)) \<or> s_closed (hsub (consumers u y)))"
    if "h < next_hub s" for h
  proof -
    have ht: "h < next_hub t" using assms(1) that by (simp add: frame_def)
    have 1: "distinct (observers (hubs s h)) \<longrightarrow> distinct (observers (hubs t h))"
      "\<forall>y\<in>set (observers (hubs s h)).
         y \<in> set (observers (hubs t h)) \<or> s_closed (hsub (consumers t y))"
      using assms(1) that by (simp_all add: frame_def)
    have 2: "distinct (observers (hubs t h)) \<longrightarrow> distinct (observers (hubs u h))"
      "\<forall>y\<in>set (observers (hubs t h)).
         y \<in> set (observers (hubs u h)) \<or> s_closed (hsub (consumers u y))"
      "\<forall>y. s_closed (hsub (consumers t y)) \<longrightarrow> s_closed (hsub (consumers u y))"
      using assms(2) ht by (simp_all add: frame_def)
    show ?thesis using 1 2 by blast
  qed
  have basic: "cfg u = cfg s" "hooks u = hooks s" "next_consumer u = next_consumer s"
    "next_socket u = next_socket s" "next_hub s \<le> next_hub u"
    "\<forall>k. observer (sockets u k) = observer (sockets s k)
         \<and> d_isStopped (sockets u k) = d_isStopped (sockets s k)
         \<and> d_closed (sockets u k) = d_closed (sockets s k)"
    using assms by (simp_all add: frame_def)
  show ?thesis
    unfolding frame_def using basic cc hb ps cl ob by blast
qed

lemma pframe_trans: "pframe s t \<Longrightarrow> pframe t u \<Longrightarrow> pframe s u"
  unfolding pframe_def using frame_trans by auto

lemma pframe_frame: "pframe s t \<Longrightarrow> frame s t"
  by (simp add: pframe_def)

lemma stableD: "stable I \<Longrightarrow> pframe s s' \<Longrightarrow> I s \<Longrightarrow> I s'"
  by (auto simp: stable_def)

lemma stable_hub: "stable I \<Longrightarrow> I s \<Longrightarrow> I (hub_upd h f s)"
  by (auto simp: stable_def)

lemma quiet_sendD:
  assumes "quiet_send I send" and "I s"
  obtains s' where "send v s = Some s'" and "I s'" and "frame s s'"
    and "consumers s' = consumers s" and "hubs s' = hubs s" and "next_hub s' = next_hub s"
    and "mux_calls s' = mux_calls s" and "p_socket s' = p_socket s"
    and "p_output s' = p_output s"
  using assms unfolding quiet_send_def by blast

lemmas prim_defs =
  hub_upd_def consumer_upd_def sock_upd_def notify_def chan_upd_def shift_def call_hook_def
  socket_close_def socket_send_def resetState_def

lemma pframe_consumer_upd [simp]:
  "s_closed (hsub (consumers s c)) \<longrightarrow> s_closed (hsub (f (consumers s c)))
   \<Longrightarrow> pframe s (consumer_upd c f s)"
  by (auto simp: pframe_def frame_def consumer_upd_def)

lemma pframe_remove1 [simp]:
  assumes "s_closed (hsub (consumers s c))"
  shows "pframe s (hub_upd h (\<lambda>x. x\<lparr>observers := remove1 c (observers x)\<rparr>) s)"
proof -
  have "y \<in> set (remove1 c xs) \<or> s_closed (hsub (consumers s y))" if "y \<in> set xs" for y xs
    using that assms by (cases "y = c") simp_all
  then show ?thesis
    by (auto simp: pframe_def frame_def hub_upd_def)
qed

lemma pframe_mux_calls [simp]: "pframe s (s\<lparr>mux_calls := m\<rparr>)"
  by (auto simp: pframe_def frame_def)

lemma pframe_notify [simp]: "pframe s (notify c n s)"
  by (auto simp: pframe_def frame_def notify_def consumer_upd_def)

lemma pframe_resetState [simp]: "pframe s (resetState s)"
  by (auto simp: pframe_def frame_def resetState_def)

lemma pframe_close_noargs [simp]: "pframe s (socket_close k Undefined Undefined s)"
  by (auto simp: pframe_def frame_def socket_close_def sock_upd_def)

lemma pframe_refcount [simp]: "pframe s (refcount s)"
proof -
  have "pframe s (resetState (socket_close k Undefined Undefined s))" for k
    using pframe_trans [OF pframe_close_noargs pframe_resetState] .
  then show ?thesis
    by (auto simp: refcount_def split: option.splits)
qed

lemma refcount_keeps [simp]:
  "consumers (refcount s) = consumers s" "mux_calls (refcount s) = mux_calls s"
  by (auto simp: refcount_def prim_defs split: option.splits)

lemma pframe_exec_finalizer [simp]:
  "s_closed (hsub (consumers s c)) \<Longrightarrow> pframe s (exec_finalizer c f s)"
  by (cases f) simp_all

lemma exec_finalizer_keeps [simp]:
  "consumers (exec_finalizer c f s) = consumers s"
  "mux_calls (exec_finalizer c f s) = mux_calls s"
  by (cases f; simp add: hub_upd_def)+

lemma fold_exec_finalizer:
  "s_closed (hsub (consumers s c)) \<Longrightarrow>
   pframe s (fold (exec_finalizer c) fs s)
   \<and> consumers (fold (exec_finalizer c) fs s) = consumers s
   \<and> mux_calls (fold (exec_finalizer c) fs s) = mux_calls s"
proof (induction fs arbitrary: s)
  case Nil
  then show ?case by simp
next
  case (Cons f fs)
  let ?t = "exec_finalizer c f s"
  have c: "s_closed (hsub (consumers ?t c))" using Cons.prems by simp
  have "pframe s ?t" using Cons.prems by simp
  moreover have "pframe ?t (fold (exec_finalizer c) fs ?t)" using Cons.IH [OF c] by blast
  ultimately have "pframe s (fold (exec_finalizer c) fs ?t)" by (rule pframe_trans)
  moreover have "consumers (fold (exec_finalizer c) fs ?t) = consumers s"
    using Cons.IH [OF c] by simp
  moreover have "mux_calls (fold (exec_finalizer c) fs ?t) = mux_calls s"
    using Cons.IH [OF c] by simp
  ultimately show ?case by simp
qed

lemma hsub_unsubscribe_effect:
  "pframe s (hsub_unsubscribe c s)
   \<and> consumers (hsub_unsubscribe c s)
       = (consumers s)(c := (consumers s c)\<lparr>hsub := unsub_sub (hsub (consumers s c))\<rparr>)
   \<and> mux_calls (hsub_unsubscribe c s) = mux_calls s"
proof (cases "s_closed (hsub (consumers s c))")
  case True
  then show ?thesis by (simp add: hsub_unsubscribe_def unsub_sub_def)
next
  case False
  let ?t = "consumer_upd c (\<lambda>x. x\<lparr>hsub := \<lparr>s_isStopped = True, s_closed = True, finalizers = []\<rparr>\<rparr>) s"
  let ?u = "fold (exec_finalizer c) (finalizers (hsub (consumers s c))) ?t"
  have eq: "hsub_unsubscribe c s = ?u"
    using False by (simp add: hsub_unsubscribe_def Let_def)
  have c: "s_closed (hsub (consumers ?t c))" by simp
  have "pframe s ?t" by simp
  moreover have "pframe ?t ?u" using fold_exec_finalizer [OF c] by blast
  ultimately have "pframe s ?u" by (rule pframe_trans)
  moreover have "consumers ?u = consumers ?t" using fold_exec_finalizer [OF c] by blast
  moreover have "mux_calls ?u = mux_calls ?t" using fold_exec_finalizer [OF c] by blast
  ultimately show ?thesis
    using False unfolding eq by (simp add: unsub_sub_def consumer_upd_def)
qed

subsection \<open>Notifications under a quiet send\<close>


lemma teardown_quiet:
  assumes q: "quiet_send I send" and st: "stable I" and i: "I s"
    and ch: "chan (consumers s c) = Some ch" and stopped: "o_isStopped ch"
  obtains s' where "teardown send c s = Some s'" and "I s'" and "frame s s'"
    and "consumers s' = (consumers s)(c := (consumers s c)\<lparr>hsub := unsub_sub (hsub (consumers s c))\<rparr>)"
    and "mux_calls s' = mux_calls s @ msg_call c (unsubMsg ch)"
proof (cases "unsubMsg ch")
  case (Inl e)
  let ?u = "hsub_unsubscribe c s"
  have "teardown send c s = Some ?u"
    using ch stopped Inl by (simp add: teardown_def)
  moreover have "I ?u" using stableD [OF st _ i] hsub_unsubscribe_effect by blast
  moreover have "frame s ?u" using hsub_unsubscribe_effect pframe_frame by blast
  ultimately show ?thesis
    using that [of ?u] hsub_unsubscribe_effect [of s c] Inl by simp
next
  case (Inr v)
  let ?t = "s\<lparr>mux_calls := mux_calls s @ [UnsubMsg c v]\<rparr>"
  have it: "I ?t" using stableD [OF st pframe_mux_calls i] .
  from quiet_sendD [OF q it, of v] obtain t' where
    t': "send v ?t = Some t'" "I t'" "frame ?t t'" "consumers t' = consumers ?t"
      "mux_calls t' = mux_calls ?t"
    by metis
  let ?u = "hsub_unsubscribe c t'"
  have "teardown send c s = Some ?u"
    using ch Inr t'(1) by (simp add: teardown_def)
  moreover have "I ?u" using stableD [OF st _ t'(2)] hsub_unsubscribe_effect by blast
  moreover have "frame s ?u"
  proof -
    have "frame s ?t" using pframe_mux_calls pframe_frame by blast
    moreover have "frame t' ?u" using hsub_unsubscribe_effect pframe_frame by blast
    ultimately show ?thesis using t'(3) frame_trans by blast
  qed
  ultimately show ?thesis
    using that [of ?u] hsub_unsubscribe_effect [of t' c] Inr t'(4,5) by simp
qed

lemma outer_unsubscribe_quiet:
  assumes q: "quiet_send I send" and st: "stable I" and i: "I s"
  obtains s' where "outer_unsubscribe send c s = Some s'" and "I s'" and "frame s s'"
    and "consumers s' = (consumers s)(c := close_rec (consumers s c))"
    and "mux_calls s' = mux_calls s @ unsub_calls c (consumers s c)"
proof (cases "chan (consumers s c)")
  case None
  then have "outer_unsubscribe send c s = Some s" by (simp add: outer_unsubscribe_def)
  then show ?thesis using that [of s] None i by (simp add: close_rec_def unsub_calls_def)
next
  case (Some ch)
  show ?thesis
  proof (cases "o_closed ch")
    case True
    then have "outer_unsubscribe send c s = Some s" using Some by (simp add: outer_unsubscribe_def)
    then show ?thesis using that [of s] Some True i by (simp add: close_rec_def unsub_calls_def)
  next
    case False
    let ?t = "chan_upd c (\<lambda>x. x\<lparr>o_isStopped := True, o_closed := True\<rparr>) s"
    have pt: "pframe s ?t" by (simp add: chan_upd_def)
    have it: "I ?t" using stableD [OF st pt i] .
    show ?thesis
    proof (cases "o_teardown ch")
      case nt: False
      have "outer_unsubscribe send c s = Some ?t"
        using Some False nt by (simp add: outer_unsubscribe_def Let_def)
      then show ?thesis
        using that [of ?t] it pt pframe_frame Some False nt
        by (simp add: close_rec_def unsub_calls_def chan_upd_def consumer_upd_def)
    next
      case td: True
      have cht: "chan (consumers ?t c) = Some (ch\<lparr>o_isStopped := True, o_closed := True\<rparr>)"
        using Some by (simp add: chan_upd_def consumer_upd_def)
      from teardown_quiet [OF q st it cht] obtain u where
        u: "teardown send c ?t = Some u" "I u" "frame ?t u"
          "consumers u = (consumers ?t)(c := (consumers ?t c)\<lparr>hsub := unsub_sub (hsub (consumers ?t c))\<rparr>)"
          "mux_calls u = mux_calls ?t @ msg_call c (unsubMsg (ch\<lparr>o_isStopped := True, o_closed := True\<rparr>))"
        by auto
      have "outer_unsubscribe send c s = Some u"
        using Some False td u(1) by (simp add: outer_unsubscribe_def Let_def)
      moreover have "frame s u" using pframe_frame [OF pt] u(3) frame_trans by blast
      ultimately show ?thesis
        using that [of u] u(2,4,5) Some False td
        by (simp add: close_rec_def unsub_calls_def chan_upd_def consumer_upd_def)
    qed
  qed
qed



lemma outer_stop_quiet:
  assumes q: "quiet_send I send" and st: "stable I" and i: "I s"
  obtains s' where "outer_stop send c n s = Some s'" and "I s'" and "frame s s'"
    and "consumers s' = (consumers s)(c := ostop_rec n (consumers s c))"
    and "mux_calls s' = mux_calls s @ close_calls c (consumers s c)"
proof (cases "chan (consumers s c)")
  case None
  then have "outer_stop send c n s = Some s" by (simp add: outer_stop_def)
  then show ?thesis using that [of s] None i by (simp add: ostop_rec_def close_calls_def)
next
  case (Some ch)
  show ?thesis
  proof (cases "o_isStopped ch")
    case True
    then have "outer_stop send c n s = Some s" using Some by (simp add: outer_stop_def)
    then show ?thesis using that [of s] Some True i by (simp add: ostop_rec_def close_calls_def)
  next
    case False
    let ?t = "notify c n (chan_upd c (\<lambda>x. x\<lparr>o_isStopped := True\<rparr>) s)"
    have pt: "pframe s ?t"
    proof -
      have "pframe s (chan_upd c (\<lambda>x. x\<lparr>o_isStopped := True\<rparr>) s)"
        by (simp add: chan_upd_def)
      moreover have "pframe (chan_upd c (\<lambda>x. x\<lparr>o_isStopped := True\<rparr>) s) ?t"
        by simp
      ultimately show ?thesis by (rule pframe_trans)
    qed
    have it: "I ?t" using stableD [OF st pt i] .
    from outer_unsubscribe_quiet [OF q st it, of c] obtain u where
      u: "outer_unsubscribe send c ?t = Some u" "I u" "frame ?t u"
        "consumers u = (consumers ?t)(c := close_rec (consumers ?t c))"
        "mux_calls u = mux_calls ?t @ unsub_calls c (consumers ?t c)"
      by blast
    have "outer_stop send c n s = Some u"
      using Some False u(1) by (simp add: outer_stop_def)
    moreover have "frame s u" using pframe_frame [OF pt] u(3) frame_trans by blast
    moreover have "consumers u = (consumers s)(c := ostop_rec n (consumers s c))"
      using u(4) Some False
      by (simp add: ostop_rec_def chan_upd_def notify_def consumer_upd_def)
    moreover have "mux_calls u = mux_calls s @ close_calls c (consumers s c)"
      using u(5) Some False
      by (simp add: close_calls_def unsub_calls_def chan_upd_def notify_def consumer_upd_def)
    ultimately show ?thesis using that [of u] u(2) by simp
  qed
qed

lemma consumer_next_quiet:
  assumes q: "quiet_send I send" and st: "stable I" and i: "I s"
  obtains s' where "consumer_next send c v s = Some s'" and "I s'" and "frame s s'"
    and "consumers s' = (consumers s)(c := next_rec v (consumers s c))"
    and "mux_calls s' = mux_calls s @ next_calls c v (consumers s c)"
proof (cases "s_isStopped (hsub (consumers s c))")
  case True
  then have "consumer_next send c v s = Some s" by (simp add: consumer_next_def)
  then show ?thesis using that [of s] True i by (simp add: next_rec_def next_calls_def)
next
  case live: False
  show ?thesis
  proof (cases "chan (consumers s c)")
    case None
    let ?t = "notify c (Next v) s"
    have "consumer_next send c v s = Some ?t" using live None by (simp add: consumer_next_def)
    moreover have pt: "pframe s ?t" by simp
    moreover have "I ?t" using stableD [OF st pt i] .
    ultimately show ?thesis
      using that [of ?t] live None pframe_frame
      by (simp add: next_rec_def next_calls_def notify_def consumer_upd_def)
  next
    case (Some ch)
    show ?thesis
    proof (cases "messageFilter ch v")
      case (Inr b)
      let ?t = "if b then outer_next c v s else s"
      have "consumer_next send c v s = Some ?t"
        using live Some Inr by (simp add: consumer_next_def)
      moreover have pt: "pframe s ?t" by (simp add: outer_next_def split: option.splits)
      moreover have "I ?t" using stableD [OF st pt i] .
      ultimately show ?thesis
        using that [of ?t] live Some Inr pframe_frame
        by (auto simp: next_rec_def next_calls_def onext_rec_def outer_next_def notify_def
            consumer_upd_def)
    next
      case (Inl e)
      from outer_stop_quiet [OF q st i, of c "Error e"] obtain u where
        u: "outer_stop send c (Error e) s = Some u" "I u" "frame s u"
          "consumers u = (consumers s)(c := ostop_rec (Error e) (consumers s c))"
          "mux_calls u = mux_calls s @ close_calls c (consumers s c)"
        by blast
      have "consumer_next send c v s = Some u"
        using live Some Inl u(1) by (simp add: consumer_next_def outer_error_def)
      then show ?thesis
        using that [of u] u(2-5) live Some Inl by (simp add: next_rec_def next_calls_def)
    qed
  qed
qed

lemma consumer_stop_quiet:
  assumes q: "quiet_send I send" and st: "stable I" and i: "I s"
  obtains s' where "consumer_stop send c n s = Some s'" and "I s'" and "frame s s'"
    and "consumers s' = (consumers s)(c := stop_rec n (consumers s c))"
    and "mux_calls s' = mux_calls s @ stop_calls c (consumers s c)"
proof (cases "s_isStopped (hsub (consumers s c))")
  case True
  then have "consumer_stop send c n s = Some s" by (simp add: consumer_stop_def)
  then show ?thesis using that [of s] True i by (simp add: stop_rec_def stop_calls_def)
next
  case live: False
  let ?s0 = "consumer_upd c (\<lambda>x. x\<lparr>hsub := (hsub x)\<lparr>s_isStopped := True\<rparr>\<rparr>) s"
  have p0: "pframe s ?s0" by simp
  have i0: "I ?s0" using stableD [OF st p0 i] .
  have "\<exists>s1. (case chan (consumers ?s0 c) of None \<Rightarrow> Some (notify c n ?s0)
                | Some ch \<Rightarrow> outer_stop send c n ?s0) = Some s1
          \<and> I s1 \<and> frame ?s0 s1
          \<and> consumers s1 = (consumers ?s0)(c :=
               (case chan (consumers ?s0 c) of
                  None \<Rightarrow> (consumers ?s0 c)\<lparr>received := received (consumers ?s0 c) @ [n]\<rparr>
                | Some ch \<Rightarrow> ostop_rec n (consumers ?s0 c)))
          \<and> mux_calls s1 = mux_calls ?s0 @ close_calls c (consumers ?s0 c)"
  proof (cases "chan (consumers ?s0 c)")
    case None
    let ?t = "notify c n ?s0"
    have pt: "pframe ?s0 ?t" by simp
    have "I ?t" using stableD [OF st pt i0] .
    then show ?thesis
      using None pframe_frame [OF pt]
      by (simp add: close_calls_def notify_def consumer_upd_def)
  next
    case (Some ch)
    from outer_stop_quiet [OF q st i0, of c n] obtain u where
      "outer_stop send c n ?s0 = Some u" "I u" "frame ?s0 u"
      "consumers u = (consumers ?s0)(c := ostop_rec n (consumers ?s0 c))"
      "mux_calls u = mux_calls ?s0 @ close_calls c (consumers ?s0 c)"
      by blast
    then show ?thesis using Some by simp
  qed
  then obtain s1 where
    s1: "(case chan (consumers ?s0 c) of None \<Rightarrow> Some (notify c n ?s0)
                | Some ch \<Rightarrow> outer_stop send c n ?s0) = Some s1"
      "I s1" "frame ?s0 s1"
      "consumers s1 = (consumers ?s0)(c :=
               (case chan (consumers ?s0 c) of
                  None \<Rightarrow> (consumers ?s0 c)\<lparr>received := received (consumers ?s0 c) @ [n]\<rparr>
                | Some ch \<Rightarrow> ostop_rec n (consumers ?s0 c)))"
      "mux_calls s1 = mux_calls ?s0 @ close_calls c (consumers ?s0 c)"
    by blast
  let ?u = "hsub_unsubscribe c s1"
  have "consumer_stop send c n s = Some ?u"
    using live s1(1) by (simp add: consumer_stop_def Let_def)
  moreover have "I ?u" using stableD [OF st _ s1(2)] hsub_unsubscribe_effect by blast
  moreover have "frame s ?u"
  proof -
    have "frame s1 ?u" using hsub_unsubscribe_effect pframe_frame by blast
    then show ?thesis using pframe_frame [OF p0] s1(3) frame_trans by blast
  qed
  moreover have "consumers ?u = (consumers s)(c := stop_rec n (consumers s c))"
    using hsub_unsubscribe_effect [of s1 c] s1(4) live
    by (auto simp: stop_rec_def Let_def consumer_upd_def split: option.splits)
  moreover have "mux_calls ?u = mux_calls s @ stop_calls c (consumers s c)"
    using hsub_unsubscribe_effect [of s1 c] s1(5) live
    by (simp add: stop_calls_def close_calls_def unsub_calls_def consumer_upd_def
        split: option.splits)
  ultimately show ?thesis using that [of ?u] by simp
qed



lemma stopped_stop_rec [simp]: "s_isStopped (hsub (stop_rec n r))"
  by (auto simp: stop_rec_def Let_def unsub_sub_def ostop_rec_def close_rec_def
      split: option.splits)

lemma stop_rec_idem [simp]: "stop_rec n (stop_rec m r) = stop_rec m r"
  using stopped_stop_rec [of m r] by (simp add: stop_rec_def [of n])

lemma stop_calls_stop_rec [simp]: "stop_calls c (stop_rec n r) = []"
  by (simp add: stop_calls_def)

lemma received_stop_rec:
  "received (stop_rec n r) = received r @ (if live r then [n] else [])"
  by (auto simp: stop_rec_def Let_def ostop_rec_def close_rec_def live_def split: option.splits)

lemma not_live_stop_rec [simp]: "\<not> live (stop_rec n r)"
  by (simp add: live_def)

lemma calls_of_append [simp]: "calls_of c (xs @ ys) = calls_of c xs @ calls_of c ys"
  by (simp add: calls_of_def)


lemma calls_of_msg_call [simp]: "calls_of c (msg_call d m) = (if c = d then msg_call c m else [])"
  by (cases m) (simp_all add: calls_of_def)

lemma calls_of_Nil [simp]: "calls_of c [] = []"
  by (simp add: calls_of_def)

lemma calls_of_unsub_calls [simp]:
  "calls_of c (unsub_calls d r) = (if c = d then unsub_calls c r else [])"
  by (simp add: unsub_calls_def split: option.split)

lemma calls_of_close_calls [simp]:
  "calls_of c (close_calls d r) = (if c = d then close_calls c r else [])"
  by (simp add: close_calls_def split: option.split)

lemma calls_of_stop_calls [simp]:
  "calls_of c (stop_calls d r) = (if c = d then stop_calls c r else [])"
  by (simp add: stop_calls_def)

lemma calls_of_next_calls [simp]:
  "calls_of c (next_calls d v r) = (if c = d then next_calls c v r else [])"
  by (cases "chan r"; simp add: next_calls_def; cases "messageFilter (the (chan r)) v"; simp)


lemma each_stop_quiet:
  assumes q: "quiet_send I send" and st: "stable I"
  shows "I s \<Longrightarrow> \<exists>s'. each (\<lambda>c t. consumer_stop send c n (shift h t)) cs s = Some s' \<and> I s'
           \<and> cfg s' = cfg s \<and> hooks s' = hooks s
           \<and> (p_socket s' = p_socket s \<or> p_socket s' = None)
           \<and> (\<forall>k. set (closeCalls (sockets s' k))
                    \<subseteq> insert (Undefined, Undefined) (set (closeCalls (sockets s k))))
           \<and> (\<forall>c. consumers s' c
                    = (if c \<in> set cs then stop_rec n (consumers s c) else consumers s c))
           \<and> (\<forall>c. calls_of c (mux_calls s')
                    = calls_of c (mux_calls s)
                      @ (if c \<in> set cs then stop_calls c (consumers s c) else []))"
proof (induction cs arbitrary: s)
  case Nil
  then show ?case by auto
next
  case (Cons a cs)
  let ?t = "shift h s"
  have it: "I ?t" unfolding shift_def using stable_hub [OF st Cons.prems] .
  from consumer_stop_quiet [OF q st it, of a n] obtain u where
    u: "consumer_stop send a n ?t = Some u" "I u" "frame ?t u"
      "consumers u = (consumers ?t)(a := stop_rec n (consumers ?t a))"
      "mux_calls u = mux_calls ?t @ stop_calls a (consumers ?t a)"
    by blast
  from Cons.IH [OF u(2)] obtain s' where
    s': "each (\<lambda>c t. consumer_stop send c n (shift h t)) cs u = Some s'" "I s'"
      "cfg s' = cfg u" "hooks s' = hooks u" "p_socket s' = p_socket u \<or> p_socket s' = None"
      "\<forall>k. set (closeCalls (sockets s' k))
                    \<subseteq> insert (Undefined, Undefined) (set (closeCalls (sockets u k)))"
      "\<forall>c. consumers s' c = (if c \<in> set cs then stop_rec n (consumers u c) else consumers u c)"
      "\<forall>c. calls_of c (mux_calls s') = calls_of c (mux_calls u)
                      @ (if c \<in> set cs then stop_calls c (consumers u c) else [])"
    by blast
  have ct: "consumers ?t = consumers s" "mux_calls ?t = mux_calls s" "cfg ?t = cfg s"
    "hooks ?t = hooks s" "p_socket ?t = p_socket s" "sockets ?t = sockets s"
    by (simp_all add: shift_def)
  have "each (\<lambda>c t. consumer_stop send c n (shift h t)) (a # cs) s = Some s'"
    using u(1) s'(1) by simp
  moreover have "cfg s' = cfg s" "hooks s' = hooks s"
    using s'(3,4) u(3) ct by (simp_all add: frame_def)
  moreover have "p_socket s' = p_socket s \<or> p_socket s' = None"
    using s'(5) u(3) ct by (auto simp: frame_def)
  moreover have "set (closeCalls (sockets s' k))
                    \<subseteq> insert (Undefined, Undefined) (set (closeCalls (sockets s k)))" for k
  proof -
    have "set (closeCalls (sockets u k))
            \<subseteq> insert (Undefined, Undefined) (set (closeCalls (sockets s k)))"
      using u(3) ct by (simp add: frame_def)
    then show ?thesis using s'(6) by blast
  qed
  moreover have "consumers s' c
       = (if c \<in> set (a # cs) then stop_rec n (consumers s c) else consumers s c)" for c
    using s'(7) u(4) ct by simp
  moreover have "calls_of c (mux_calls s')
       = calls_of c (mux_calls s)
         @ (if c \<in> set (a # cs) then stop_calls c (consumers s c) else [])" for c
    using s'(8) u(4,5) ct by simp
  ultimately show ?case using s'(2) by blast
qed



lemma hub_error_quiet:
  assumes q: "quiet_send I send" and st: "stable I" and i: "I s"
  shows "\<exists>s'. hub_error send h e s = Some s' \<and> I s'
    \<and> cfg s' = cfg s \<and> hooks s' = hooks s
    \<and> (p_socket s' = p_socket s \<or> p_socket s' = None)
    \<and> (\<forall>k. set (closeCalls (sockets s' k))
              \<subseteq> insert (Undefined, Undefined) (set (closeCalls (sockets s k))))
    \<and> (\<forall>c. consumers s' c
           = (if \<not> isStopped (hubs s h) \<and> c \<in> set (observers (hubs s h))
              then stop_rec (Error e) (consumers s c) else consumers s c))
    \<and> (\<forall>c. calls_of c (mux_calls s')
           = calls_of c (mux_calls s)
             @ (if \<not> isStopped (hubs s h) \<and> c \<in> set (observers (hubs s h))
                then stop_calls c (consumers s c) else []))"
proof (cases "isStopped (hubs s h)")
  case True
  then have "hub_error send h e s = Some s" by (simp add: hub_error_def)
  then show ?thesis using True i by auto
next
  case False
  let ?t = "hub_upd h (\<lambda>x. x\<lparr>isStopped := True, hasError := True, thrownError := e\<rparr>) s"
  have it: "I ?t" using stable_hub [OF st i] .
  from each_stop_quiet [OF q st it, of "Error e" h "observers (hubs s h)"] obtain s' where
    s': "each (\<lambda>c t. consumer_stop send c (Error e) (shift h t)) (observers (hubs s h)) ?t = Some s'"
      "I s'" "cfg s' = cfg ?t" "hooks s' = hooks ?t" "p_socket s' = p_socket ?t \<or> p_socket s' = None"
      "\<forall>k. set (closeCalls (sockets s' k))
                    \<subseteq> insert (Undefined, Undefined) (set (closeCalls (sockets ?t k)))"
      "\<forall>c. consumers s' c = (if c \<in> set (observers (hubs s h))
              then stop_rec (Error e) (consumers ?t c) else consumers ?t c)"
      "\<forall>c. calls_of c (mux_calls s') = calls_of c (mux_calls ?t)
                      @ (if c \<in> set (observers (hubs s h)) then stop_calls c (consumers ?t c) else [])"
    by blast
  have "hub_error send h e s = Some s'"
    using False s'(1) by (simp add: hub_error_def consumer_error_def)
  then show ?thesis
    using s'(2-8) False by (intro exI [of _ s']) (simp add: hub_upd_def)
qed

lemma hub_complete_quiet:
  assumes q: "quiet_send I send" and st: "stable I" and i: "I s"
  shows "\<exists>s'. hub_complete send h s = Some s' \<and> I s'
    \<and> cfg s' = cfg s \<and> hooks s' = hooks s
    \<and> (p_socket s' = p_socket s \<or> p_socket s' = None)
    \<and> (\<forall>k. set (closeCalls (sockets s' k))
              \<subseteq> insert (Undefined, Undefined) (set (closeCalls (sockets s k))))
    \<and> (\<forall>c. consumers s' c
           = (if \<not> isStopped (hubs s h) \<and> c \<in> set (observers (hubs s h))
              then stop_rec Complete (consumers s c) else consumers s c))
    \<and> (\<forall>c. calls_of c (mux_calls s')
           = calls_of c (mux_calls s)
             @ (if \<not> isStopped (hubs s h) \<and> c \<in> set (observers (hubs s h))
                then stop_calls c (consumers s c) else []))"
proof (cases "isStopped (hubs s h)")
  case True
  then have "hub_complete send h s = Some s" by (simp add: hub_complete_def)
  then show ?thesis using True i by auto
next
  case False
  let ?t = "hub_upd h (\<lambda>x. x\<lparr>isStopped := True\<rparr>) s"
  have it: "I ?t" using stable_hub [OF st i] .
  from each_stop_quiet [OF q st it, of Complete h "observers (hubs s h)"] obtain s' where
    s': "each (\<lambda>c t. consumer_stop send c Complete (shift h t)) (observers (hubs s h)) ?t = Some s'"
      "I s'" "cfg s' = cfg ?t" "hooks s' = hooks ?t" "p_socket s' = p_socket ?t \<or> p_socket s' = None"
      "\<forall>k. set (closeCalls (sockets s' k))
                    \<subseteq> insert (Undefined, Undefined) (set (closeCalls (sockets ?t k)))"
      "\<forall>c. consumers s' c = (if c \<in> set (observers (hubs s h))
              then stop_rec Complete (consumers ?t c) else consumers ?t c)"
      "\<forall>c. calls_of c (mux_calls s') = calls_of c (mux_calls ?t)
                      @ (if c \<in> set (observers (hubs s h)) then stop_calls c (consumers ?t c) else [])"
    by blast
  have "hub_complete send h s = Some s'"
    using False s'(1) by (simp add: hub_complete_def consumer_complete_def)
  then show ?thesis
    using s'(2-8) False by (intro exI [of _ s']) (simp add: hub_upd_def)
qed

lemma each_next_quiet:
  assumes q: "quiet_send I send" and st: "stable I"
  shows "I s \<Longrightarrow> distinct cs \<Longrightarrow>
         \<exists>s'. each (\<lambda>c. consumer_next send c v) cs s = Some s' \<and> I s' \<and> frame s s'
           \<and> (\<forall>c. consumers s' c
                    = (if c \<in> set cs then next_rec v (consumers s c) else consumers s c))
           \<and> (\<forall>c. calls_of c (mux_calls s')
                    = calls_of c (mux_calls s)
                      @ (if c \<in> set cs then next_calls c v (consumers s c) else []))"
proof (induction cs arbitrary: s)
  case Nil
  then show ?case by auto
next
  case (Cons a cs)
  from consumer_next_quiet [OF q st Cons.prems(1), of a v] obtain u where
    u: "consumer_next send a v s = Some u" "I u" "frame s u"
      "consumers u = (consumers s)(a := next_rec v (consumers s a))"
      "mux_calls u = mux_calls s @ next_calls a v (consumers s a)"
    by blast
  have d: "distinct cs" "a \<notin> set cs" using Cons.prems(2) by simp_all
  from Cons.IH [OF u(2) d(1)] obtain s' where
    s': "each (\<lambda>c. consumer_next send c v) cs u = Some s'" "I s'" "frame u s'"
      "\<forall>c. consumers s' c = (if c \<in> set cs then next_rec v (consumers u c) else consumers u c)"
      "\<forall>c. calls_of c (mux_calls s') = calls_of c (mux_calls u)
                      @ (if c \<in> set cs then next_calls c v (consumers u c) else [])"
    by blast
  have "each (\<lambda>c. consumer_next send c v) (a # cs) s = Some s'"
    using u(1) s'(1) by simp
  moreover have "frame s s'" using u(3) s'(3) frame_trans by blast
  moreover have "consumers s' c
       = (if c \<in> set (a # cs) then next_rec v (consumers s c) else consumers s c)" for c
    using s'(4) u(4) d(2) by auto
  moreover have "calls_of c (mux_calls s')
       = calls_of c (mux_calls s)
         @ (if c \<in> set (a # cs) then next_calls c v (consumers s c) else [])" for c
    using s'(5) u(4,5) d(2) by auto
  ultimately show ?case using s'(2) by blast
qed

lemma hub_next_quiet:
  assumes q: "quiet_send I send" and st: "stable I" and i: "I s"
    and d: "distinct (observers (hubs s h))"
  shows "\<exists>s'. hub_next send h v s = Some s' \<and> I s' \<and> frame s s'
    \<and> (\<forall>c. consumers s' c
           = (if \<not> isStopped (hubs s h) \<and> c \<in> set (observers (hubs s h))
              then next_rec v (consumers s c) else consumers s c))
    \<and> (\<forall>c. calls_of c (mux_calls s')
           = calls_of c (mux_calls s)
             @ (if \<not> isStopped (hubs s h) \<and> c \<in> set (observers (hubs s h))
                then next_calls c v (consumers s c) else []))"
proof (cases "isStopped (hubs s h)")
  case True
  then have "hub_next send h v s = Some s" by (simp add: hub_next_def)
  then show ?thesis using True i by auto
next
  case False
  from each_next_quiet [OF q st i d, of v] obtain s' where
    s': "each (\<lambda>c. consumer_next send c v) (observers (hubs s h)) s = Some s'" "I s'" "frame s s'"
      "\<forall>c. consumers s' c = (if c \<in> set (observers (hubs s h))
               then next_rec v (consumers s c) else consumers s c)"
      "\<forall>c. calls_of c (mux_calls s') = calls_of c (mux_calls s)
                      @ (if c \<in> set (observers (hubs s h)) then next_calls c v (consumers s c) else [])"
    by blast
  have "hub_next send h v s = Some s'" using False s'(1) by (simp add: hub_next_def)
  then show ?thesis using s'(2-5) False by (intro exI [of _ s']) simp
qed

subsection \<open>Sends that are quiet\<close>

lemma stable_inert: "stable inert"
  by (auto simp: stable_def pframe_def frame_def inert_def hub_upd_def split: destination.splits)

lemma stable_calm: "stable calm"
  unfolding calm_def stable_def
  by (auto simp: pframe_def frame_def hub_upd_def)

lemma stable_conj: "stable I \<Longrightarrow> stable J \<Longrightarrow> stable (\<lambda>s. I s \<and> J s)"
  by (auto simp: stable_def)

lemma stable_sent: "stable (\<lambda>s. \<forall>k. sent (sockets s k) = f k)"
  by (auto simp: stable_def pframe_def hub_upd_def)

lemma stable_destination: "stable (\<lambda>s. \<exists>q. destination s = Queue q)"
  by (auto simp: stable_def pframe_def hub_upd_def)

lemma quiet_send_inert: "quiet_send inert send_inert"
  by (auto simp: quiet_send_def send_inert_def inert_def frame_def split: destination.splits)

lemma quiet_send_inert_sent:
  "quiet_send (\<lambda>s. inert s \<and> (\<forall>k. sent (sockets s k) = f k)) send_inert"
  by (auto simp: quiet_send_def send_inert_def inert_def frame_def split: destination.splits)

lemma ws_next_calm:
  assumes "calm s"
  shows "\<exists>s'. ws_next v s = Some s' \<and> calm s' \<and> frame s s'
           \<and> consumers s' = consumers s \<and> hubs s' = hubs s \<and> next_hub s' = next_hub s
           \<and> mux_calls s' = mux_calls s \<and> p_socket s' = p_socket s \<and> p_output s' = p_output s"
proof (cases "destination s")
  case (Queue q)
  then show ?thesis
    using assms by (auto simp: ws_next_def calm_def frame_def)
next
  case (Sender k)
  show ?thesis
  proof (cases "d_isStopped (sockets s k) \<or> readyState (sockets s k) \<noteq> 1")
    case True
    then have "ws_next v s = Some s" using Sender by (auto simp: ws_next_def sender_next_def)
    then show ?thesis using assms by simp
  next
    case False
    have "encodes_all (cfg s)" using assms Sender by (simp add: calm_def)
    then obtain m where m: "serializer (cfg s) v = Inr m" by (auto simp: encodes_all_def)
    then have "ws_next v s = Some (socket_send k m s)"
      using Sender False by (simp add: ws_next_def sender_next_def)
    then show ?thesis
      using assms Sender
      by (auto simp: calm_def frame_def socket_send_def sock_upd_def)
  qed
qed

lemma quiet_send_calm: "quiet_send calm ws_next"
  unfolding quiet_send_def using ws_next_calm by blast


subsection \<open>The error handler of the destination\<close>


lemma sender_error_coded:
  assumes live: "\<not> d_isStopped (sockets s k)"
    and coded: "truthy err \<and> truthy (get_prop err ''code'')"
  shows "sender_error k err s
         = Some (sock_upd k (\<lambda>x. x\<lparr>d_closed := True\<rparr>)
             (resetState
               (socket_close k (get_prop err ''code'') (get_prop err ''reason'')
                 (call_hook (closingObserver (cfg s)) ClosingHook
                   (sock_upd k (\<lambda>x. x\<lparr>d_isStopped := True\<rparr>) s)))))"
  using assms by (simp add: sender_error_def Let_def sock_upd_def call_hook_def)

lemma sender_error_uncoded:
  assumes live: "\<not> d_isStopped (sockets s k)"
    and dest: "destination s = Sender k"
    and uncoded: "\<not> (truthy err \<and> truthy (get_prop err ''code''))"
  shows "\<exists>s'. sender_error k err s = Some s'
    \<and> (\<forall>j. sent (sockets s' j) = sent (sockets s j))
    \<and> hooks s' = hooks s @ (if closingObserver (cfg s) then [ClosingHook] else [])
    \<and> p_socket s' = None \<and> destination s' = Queue new_replay \<and> cfg s' = cfg s
    \<and> (\<forall>j. set (closeCalls (sockets s' j))
              \<subseteq> insert (Undefined, Undefined) (set (closeCalls (sockets s j))))
    \<and> (\<forall>c. consumers s' c
           = (if \<not> isStopped (hubs s (observer (sockets s k)))
                 \<and> c \<in> set (observers (hubs s (observer (sockets s k))))
              then stop_rec (Error (TypeError WEBSOCKETSUBJECT_INVALID_ERROR_OBJECT)) (consumers s c)
              else consumers s c))
    \<and> (\<forall>c. calls_of c (mux_calls s')
           = calls_of c (mux_calls s)
             @ (if \<not> isStopped (hubs s (observer (sockets s k)))
                   \<and> c \<in> set (observers (hubs s (observer (sockets s k))))
                then stop_calls c (consumers s c) else []))"
proof -
  define s1 where "s1 = call_hook (closingObserver (cfg s)) ClosingHook
               (sock_upd k (\<lambda>x. x\<lparr>d_isStopped := True\<rparr>) s)"
  define I where "I = (\<lambda>t. inert t \<and> (\<forall>j. sent (sockets t j) = sent (sockets s j)))"
  define h where "h = observer (sockets s k)"
  define e where "e = TypeError WEBSOCKETSUBJECT_INVALID_ERROR_OBJECT"
  have s1: "cfg s1 = cfg s" "consumers s1 = consumers s" "hubs s1 = hubs s"
    "mux_calls s1 = mux_calls s" "observer (sockets s1 k) = h"
    "hooks s1 = hooks s @ (if closingObserver (cfg s) then [ClosingHook] else [])"
    "\<And>j. closeCalls (sockets s1 j) = closeCalls (sockets s j)"
    by (simp_all add: s1_def h_def call_hook_def sock_upd_def)
  have i1: "I s1" using dest by (simp add: I_def s1_def inert_def call_hook_def sock_upd_def)
  have st: "stable I" unfolding I_def by (rule stable_conj [OF stable_inert stable_sent])
  have q: "quiet_send I send_inert" unfolding I_def by (rule quiet_send_inert_sent)
  from hub_error_quiet [OF q st i1, of h e] obtain s2 where
    s2: "hub_error send_inert h e s1 = Some s2" and i2: "I s2" and c2: "cfg s2 = cfg s1"
      and h2: "hooks s2 = hooks s1"
      and cc2: "\<forall>j. set (closeCalls (sockets s2 j))
              \<subseteq> insert (Undefined, Undefined) (set (closeCalls (sockets s1 j)))"
      and co2: "\<forall>c. consumers s2 c
           = (if \<not> isStopped (hubs s1 h) \<and> c \<in> set (observers (hubs s1 h))
              then stop_rec (Error e) (consumers s1 c) else consumers s1 c)"
      and mc2: "\<forall>c. calls_of c (mux_calls s2)
           = calls_of c (mux_calls s1)
             @ (if \<not> isStopped (hubs s1 h) \<and> c \<in> set (observers (hubs s1 h))
                then stop_calls c (consumers s1 c) else [])"
    by blast
  define s' where "s' = sock_upd k (\<lambda>x. x\<lparr>d_closed := True\<rparr>) (resetState s2)"
  have r: "sender_error k err s = Some s'"
    using live uncoded s2 [unfolded s1_def h_def e_def]
    unfolding s'_def by (auto simp: sender_error_def Let_def)
  have a: "\<forall>j. sent (sockets s' j) = sent (sockets s j)"
    using i2 by (simp add: I_def s'_def sock_upd_def resetState_def)
  have b: "hooks s' = hooks s @ (if closingObserver (cfg s) then [ClosingHook] else [])"
    using h2 s1(6) by (simp add: s'_def sock_upd_def resetState_def)
  have c: "p_socket s' = None" "destination s' = Queue new_replay" "cfg s' = cfg s"
    using c2 s1(1) by (simp_all add: s'_def sock_upd_def resetState_def)
  have d: "\<forall>j. set (closeCalls (sockets s' j))
              \<subseteq> insert (Undefined, Undefined) (set (closeCalls (sockets s j)))"
    using cc2 s1(7) by (simp add: s'_def sock_upd_def resetState_def)
  have f: "\<forall>c. consumers s' c
           = (if \<not> isStopped (hubs s h) \<and> c \<in> set (observers (hubs s h))
              then stop_rec (Error e) (consumers s c) else consumers s c)"
    using co2 s1(2,3) by (simp add: s'_def sock_upd_def resetState_def)
  have g: "\<forall>c. calls_of c (mux_calls s')
           = calls_of c (mux_calls s)
             @ (if \<not> isStopped (hubs s h) \<and> c \<in> set (observers (hubs s h))
                then stop_calls c (consumers s c) else [])"
    using mc2 s1(2,3,4) by (simp add: s'_def sock_upd_def resetState_def)
  show ?thesis
    using r a b c d f g unfolding h_def e_def by (intro exI [of _ s']) simp
qed


subsection \<open>Evaluating scenarios\<close>

lemmas eval_defs =
  model_defs coded_serializer_def coded_cfg_def transport_def ws_error_def sender_error_def
  hub_error_def hub_next_def hub_complete_def consumer_error_def consumer_complete_def
  consumer_stop_def consumer_next_def outer_stop_def outer_error_def outer_complete_def
  outer_next_def outer_unsubscribe_def teardown_def shift_def notify_def chan_upd_def
  send_inert_def replay_error_def replay_complete_def sender_complete_def ws_complete_def
  onclose_def onerror_def onmessage_def multiplex_def
  WEBSOCKETSUBJECT_INVALID_ERROR_OBJECT_def

lemma demo_reopened_eq:
  "(ws_next (Str ''a'') (init demo_cfg) \<bind> subscribe \<bind> unsubscribe 0 \<bind> subscribe
          \<bind> ws_next (Str ''b'') \<bind> transport 1 1 \<bind> onopen 1) = Some demo_reopened"
  by (simp add: demo_reopened_def eval_defs)

lemma demo_rejected_eq:
  "(ws_next (Str ''a'') (init demo_cfg) \<bind> ws_next (Num 3) \<bind> ws_next (Str ''b'')
          \<bind> subscribe \<bind> transport 0 1 \<bind> onopen 0) = Some demo_rejected"
  by (simp add: demo_rejected_def eval_defs)

lemma coded_open_eq: "(subscribe (init coded_cfg) \<bind> transport 0 1 \<bind> onopen 0) = Some coded_open"
  by (simp add: coded_open_def eval_defs)


subsection \<open>The buffer and its replay\<close>

lemma each_ws_next_queue:
  "destination s = Queue q \<Longrightarrow> \<not> r_isStopped q \<Longrightarrow>
   each ws_next vs s = Some (s\<lparr>destination := Queue (q\<lparr>buffer := buffer q @ vs\<rparr>)\<rparr>)"
proof (induction vs arbitrary: s q)
  case Nil
  then show ?case by simp
next
  case (Cons v vs)
  let ?q = "q\<lparr>buffer := buffer q @ [v]\<rparr>"
  let ?t = "s\<lparr>destination := Queue ?q\<rparr>"
  have "ws_next v s = Some ?t" using Cons.prems by (simp add: ws_next_def replay_next_def)
  moreover have "each ws_next vs ?t = Some (?t\<lparr>destination := Queue (?q\<lparr>buffer := buffer ?q @ vs\<rparr>)\<rparr>)"
    using Cons.prems by (intro Cons.IH) simp_all
  ultimately show ?case by simp
qed

lemma replay_to_all:
  assumes "\<forall>v\<in>set xs. \<exists>m. serializer (cfg s) v = Inr m"
    and "\<not> d_isStopped (sockets s k)" and "\<not> d_closed (sockets s k)"
    and "readyState (sockets s k) = 1"
  shows "replay_to k xs s
         = Some (sock_upd k (\<lambda>x. x\<lparr>sent := sent x @ map (\<lambda>v. projr (serializer (cfg s) v)) xs\<rparr>) s)"
  using assms
proof (induction xs arbitrary: s)
  case Nil
  then show ?case by (simp add: sock_upd_def)
next
  case (Cons v xs)
  from Cons.prems(1) obtain m where m: "serializer (cfg s) v = Inr m" by auto
  let ?t = "socket_send k m s"
  have n: "sender_next k v s = Some ?t" using Cons.prems m by (simp add: sender_next_def)
  have "replay_to k xs ?t
        = Some (sock_upd k (\<lambda>x. x\<lparr>sent := sent x @ map (\<lambda>v. projr (serializer (cfg ?t) v)) xs\<rparr>) ?t)"
    using Cons.prems by (intro Cons.IH) (simp_all add: socket_send_def)
  then show ?case
    using Cons.prems n m by (simp add: socket_send_def sock_upd_def)
qed


lemma demo_connecting_facts:
  "destination demo_connecting = Queue new_replay" "p_socket demo_connecting = Some 0"
  "cfg demo_connecting = demo_cfg" "sent (sockets demo_connecting 0) = []"
  "observers (hubs demo_connecting 0) = [0]" "p_output demo_connecting = 0"
  by (simp_all add: demo_connecting_def eval_defs)

lemma demo_open_facts:
  "destination demo_open = Sender 0" "p_socket demo_open = Some 0"
  "cfg demo_open = demo_cfg" "sent (sockets demo_open 0) = []"
  "observers (hubs demo_open 0) = [0]" "p_output demo_open = 0"
  "\<not> d_isStopped (sockets demo_open 0)" "readyState (sockets demo_open 0) = 1"
  "observer (sockets demo_open 0) = 0" "\<not> isStopped (hubs demo_open 0)"
  "consumers demo_open 0 = \<lparr>received = [], hsub = \<lparr>s_isStopped = False, s_closed = False, finalizers = [RemoveFrom 0, Refcount]\<rparr>, chan = None\<rparr>"
  "hooks demo_open = [OpenHook]" "closeCalls (sockets demo_open 0) = []"
  "next_hub demo_open = 1"
  by (simp_all add: demo_open_def demo_connecting_def eval_defs)


lemma calm_queue: "destination s = Queue q \<Longrightarrow> calm s"
  by (simp add: calm_def)

lemma stable_queue_calm: "stable (\<lambda>s. calm s \<and> (\<exists>q. destination s = Queue q))"
  using stable_conj [OF stable_calm stable_destination] .

lemma quiet_send_queue: "quiet_send (\<lambda>s. calm s \<and> (\<exists>q. destination s = Queue q)) ws_next"
proof -
  have "\<exists>s'. ws_next v s = Some s' \<and> (calm s' \<and> (\<exists>q. destination s' = Queue q)) \<and> frame s s'
           \<and> consumers s' = consumers s \<and> hubs s' = hubs s \<and> next_hub s' = next_hub s
           \<and> mux_calls s' = mux_calls s \<and> p_socket s' = p_socket s \<and> p_output s' = p_output s"
    if "destination s = Queue q" for v s q
    using that by (auto simp: ws_next_def calm_def frame_def)
  then show ?thesis unfolding quiet_send_def by blast
qed


subsection \<open>Channels\<close>

lemma received_close_rec [simp]: "received (close_rec r) = received r"
  by (simp add: close_rec_def split: option.split)

lemma received_next_rec_channel:
  assumes "chan r = Some ch" and "\<not> o_isStopped ch" and "\<not> s_isStopped (hsub r)"
  shows "received (next_rec v r) = received r @ outcome v (messageFilter ch v)"
  using assms by (cases "messageFilter ch v") (simp_all add: next_rec_def onext_rec_def ostop_rec_def)

lemma next_rec_accepts:
  assumes "chan r = Some ch" and "messageFilter ch v = Inr b"
  shows "chan (next_rec v r) = Some ch" and "hsub (next_rec v r) = hsub r"
  using assms by (simp_all add: next_rec_def onext_rec_def)




subsection \<open>Attaching and detaching a channel\<close>











lemma demo_boom_steps:
  "outer_error ws_next 1 (Str ''boom'') (alloc_consumer (Some chan_boom) demo_open)
   = Some demo_boom_errored"
  "subscribe_internal 1 demo_boom_errored = Some demo_boom_attached"
  "teardown ws_next 1 demo_boom_attached = Some demo_boom"
  "multiplex (Inl (Str ''boom'')) (Inr (Str ''unsubX'')) filter_x demo_open = Some demo_boom"
  by (simp_all add: demo_boom_def demo_boom_attached_def demo_boom_errored_def chan_boom_def
      demo_open_def demo_connecting_def eval_defs Let_def)

lemma demo_boom_facts:
  "received (consumers demo_boom_errored 1) = [Error (Str ''boom'')]"
  "observers (hubs demo_boom_attached 0) = [0, 1]" "p_output demo_boom_attached = 0"
  "observers (hubs demo_boom 0) = [0]"
  "received (consumers demo_boom 1) = [Error (Str ''boom'')]"
  "sent (sockets demo_boom 0) = [''unsubX'']"
  "mux_calls demo_boom = [UnsubMsg 1 (Str ''unsubX'')]" "mux_calls demo_open = []"
  by (simp_all add: demo_boom_def demo_boom_attached_def demo_boom_errored_def chan_boom_def
      demo_open_def demo_connecting_def eval_defs Let_def)

lemma demo_mux_more:
  "p_output demo_mux = 0" "\<not> hasError (hubs demo_mux 0)" "p_socket demo_mux = Some 0"
  "next_consumer demo_mux = 3"
  "consumers demo_mux 0 = \<lparr>received = [], hsub = \<lparr>s_isStopped = False, s_closed = False, finalizers = [RemoveFrom 0, Refcount]\<rparr>, chan = None\<rparr>"
  by (simp_all add: demo_mux_def mux_cfg_def text_serializer_def chan_x_def chan_y_def eval_defs)

lemma demo_mux_num_eq:
  "(subscribe (init demo_cfg) \<bind> transport 0 1 \<bind> onopen 0
          \<bind> multiplex (Inr (Str ''subX'')) (Inr (Num 3)) filter_x
          \<bind> multiplex (Inr (Str ''subY'')) (Inr (Str ''unsubY'')) filter_y) = Some demo_mux_num"
  by (simp add: demo_mux_num_def eval_defs)

lemma demo_mux_num_facts:
  "observer (sockets demo_mux_num 0) = 0" "observers (hubs demo_mux_num 0) = [0, 1, 2]"
  "chan (consumers demo_mux_num 1) = Some chan_x_num"
  "chan (consumers demo_mux_num 2) = Some chan_y"
  "received (consumers demo_mux_num 1) = []" "received (consumers demo_mux_num 2) = []"
  "serializer (cfg demo_mux_num) (Num 3) = Inl (Num 3)"
  by (simp_all add: demo_mux_num_def chan_x_num_def chan_y_def eval_defs)

lemma demo_mux_num_x_facts:
  "onmessage 0 ''x'' demo_mux_num = Some demo_mux_num_x"
  "received (consumers demo_mux_num_x 1) = [Error (Str ''boom'')]"
  "received (consumers demo_mux_num_x 2) = [Error (TypeError WEBSOCKETSUBJECT_INVALID_ERROR_OBJECT)]"
  "onmessage 0 ''y'' demo_mux_num_x = Some demo_mux_num_x"
  by (simp_all add: demo_mux_num_x_def demo_mux_num_def filter_x_def filter_y_def eval_defs Let_def)


subsection \<open>What every step preserves\<close>

lemma events_sel [simp]:
  "events (sock_upd k f s) = events s" "events (hub_upd h g s) = events s"
  "events (consumer_upd c r s) = events s" "events (chan_upd c q s) = events s"
  "events (resetState s) = events s"
  "events (call_hook b x s) = events s @ (if b then [Hooked x] else [])"
  "events (socket_close k a1 a2 s) = events s @ [Closed k a1 a2]"
  "events (notify c n s) = events s @ [Notified c n]"
  "events (socket_send k m s) = events s"
  by (simp_all add: prim_defs)

lemma logs_append [simp]:
  "notes_of c (xs @ ys) = notes_of c xs @ notes_of c ys"
  "closes_of k (xs @ ys) = closes_of k xs @ closes_of k ys"
  "hooks_of (xs @ ys) = hooks_of xs @ hooks_of ys"
  "notes_of c [] = []" "closes_of k [] = []" "hooks_of [] = []"
  by (simp_all add: notes_of_def closes_of_def hooks_of_def)

lemma logs_single [simp]:
  "notes_of c [e] = note_of c e" "closes_of k [e] = close_of k e" "hooks_of [e] = hook_of e"
  by (simp_all add: notes_of_def closes_of_def hooks_of_def)

lemma rec_step_refl [simp]: "rec_step r r"
  by (simp add: rec_step_def split: option.split)

lemma rec_step_trans:
  assumes "rec_step a b" and "rec_step b c"
  shows "rec_step a c"
proof -
  have h: "(s_isStopped (hsub a) \<longrightarrow> s_isStopped (hsub c))
     \<and> (s_closed (hsub a) \<longrightarrow> s_closed (hsub c))
     \<and> ((s_closed (hsub a) \<longrightarrow> s_isStopped (hsub a))
          \<longrightarrow> (s_closed (hsub c) \<longrightarrow> s_isStopped (hsub c)))
     \<and> set (finalizers (hsub c)) \<subseteq> set (finalizers (hsub a))"
    using assms unfolding rec_step_def by blast
  have ab: "case chan a of
           None \<Rightarrow> chan b = None
         | Some ch \<Rightarrow>
             (case chan b of
                None \<Rightarrow> False
              | Some ch' \<Rightarrow>
                  unsubMsg ch' = unsubMsg ch \<and> messageFilter ch' = messageFilter ch
                  \<and> o_teardown ch' = o_teardown ch
                  \<and> (o_isStopped ch \<longrightarrow> o_isStopped ch')
                  \<and> (o_closed ch \<longrightarrow> o_closed ch'))"
    using assms(1) unfolding rec_step_def by blast
  have bc: "case chan b of
           None \<Rightarrow> chan c = None
         | Some ch \<Rightarrow>
             (case chan c of
                None \<Rightarrow> False
              | Some ch' \<Rightarrow>
                  unsubMsg ch' = unsubMsg ch \<and> messageFilter ch' = messageFilter ch
                  \<and> o_teardown ch' = o_teardown ch
                  \<and> (o_isStopped ch \<longrightarrow> o_isStopped ch')
                  \<and> (o_closed ch \<longrightarrow> o_closed ch'))"
    using assms(2) unfolding rec_step_def by blast
  have ac: "case chan a of
           None \<Rightarrow> chan c = None
         | Some ch \<Rightarrow>
             (case chan c of
                None \<Rightarrow> False
              | Some ch' \<Rightarrow>
                  unsubMsg ch' = unsubMsg ch \<and> messageFilter ch' = messageFilter ch
                  \<and> o_teardown ch' = o_teardown ch
                  \<and> (o_isStopped ch \<longrightarrow> o_isStopped ch')
                  \<and> (o_closed ch \<longrightarrow> o_closed ch'))"
    using ab bc by (cases "chan a"; cases "chan b"; cases "chan c") simp_all
  show ?thesis unfolding rec_step_def using h ac by blast
qed

lemma rec_step_frozen: "rec_step r r' \<Longrightarrow> frozen r \<Longrightarrow> frozen r'"
  unfolding rec_step_def frozen_def
  by (cases "chan r"; cases "chan r'") auto

lemma grows_refl [simp]: "grows P s s"
  unfolding grows_def by (auto intro: exI [of _ "[]"])

lemma grows_trans:
  assumes "grows P s t" and "grows P t u"
  shows "grows P s u"
proof -
  from assms(1) obtain es where
    a: "cfg t = cfg s" "next_consumer t = next_consumer s" "events t = events s @ es"
      "\<forall>e\<in>set es. P e" "hooks t = hooks s @ hooks_of es"
      "\<forall>k. closeCalls (sockets t k) = closeCalls (sockets s k) @ closes_of k es"
      "\<forall>c. received (consumers t c) = received (consumers s c) @ notes_of c es"
      "\<forall>c. frozen (consumers s c) \<longrightarrow> notes_of c es = []"
      "\<forall>c. rec_step (consumers s c) (consumers t c)"
      "\<forall>c. calls_of c (mux_calls t) @ unsub_calls c (consumers t c)
             = calls_of c (mux_calls s) @ unsub_calls c (consumers s c)"
      "\<forall>c. registered_ok s c \<longrightarrow> registered_ok t c"
      "\<forall>h c. count_list (observers (hubs t h)) c \<le> count_list (observers (hubs s h)) c"
    unfolding grows_def by blast
  from assms(2) obtain fs where
    b: "cfg u = cfg t" "next_consumer u = next_consumer t" "events u = events t @ fs"
      "\<forall>e\<in>set fs. P e" "hooks u = hooks t @ hooks_of fs"
      "\<forall>k. closeCalls (sockets u k) = closeCalls (sockets t k) @ closes_of k fs"
      "\<forall>c. received (consumers u c) = received (consumers t c) @ notes_of c fs"
      "\<forall>c. frozen (consumers t c) \<longrightarrow> notes_of c fs = []"
      "\<forall>c. rec_step (consumers t c) (consumers u c)"
      "\<forall>c. calls_of c (mux_calls u) @ unsub_calls c (consumers u c)
             = calls_of c (mux_calls t) @ unsub_calls c (consumers t c)"
      "\<forall>c. registered_ok t c \<longrightarrow> registered_ok u c"
      "\<forall>h c. count_list (observers (hubs u h)) c \<le> count_list (observers (hubs t h)) c"
    unfolding grows_def by blast
  have fr: "\<forall>c. frozen (consumers s c) \<longrightarrow> notes_of c (es @ fs) = []"
  proof (intro allI impI)
    fix c assume f: "frozen (consumers s c)"
    have "frozen (consumers t c)" using rec_step_frozen [of "consumers s c" "consumers t c"] a(9) f by blast
    then show "notes_of c (es @ fs) = []" using a(8) b(8) f by simp
  qed
  have rs: "\<forall>c. rec_step (consumers s c) (consumers u c)"
    using a(9) b(9) rec_step_trans by blast
  have "events u = events s @ (es @ fs) \<and> (\<forall>e\<in>set (es @ fs). P e)
            \<and> hooks u = hooks s @ hooks_of (es @ fs)
            \<and> (\<forall>k. closeCalls (sockets u k) = closeCalls (sockets s k) @ closes_of k (es @ fs))
            \<and> (\<forall>c. received (consumers u c) = received (consumers s c) @ notes_of c (es @ fs)
                  \<and> (frozen (consumers s c) \<longrightarrow> notes_of c (es @ fs) = []))"
    using a(3-7) b(3-7) fr by auto
  then have ex: "\<exists>es. events u = events s @ es \<and> (\<forall>e\<in>set es. P e)
            \<and> hooks u = hooks s @ hooks_of es
            \<and> (\<forall>k. closeCalls (sockets u k) = closeCalls (sockets s k) @ closes_of k es)
            \<and> (\<forall>c. received (consumers u c) = received (consumers s c) @ notes_of c es
                  \<and> (frozen (consumers s c) \<longrightarrow> notes_of c es = []))"
    by (rule exI)
  have cn: "\<forall>h c. count_list (observers (hubs u h)) c \<le> count_list (observers (hubs s h)) c"
    using a(12) b(12) le_trans by blast
  show ?thesis
    unfolding grows_def using a(1,2,10,11) b(1,2,10,11) rs ex cn by simp
qed


lemma growsI:
  assumes "cfg s' = cfg s" and "next_consumer s' = next_consumer s"
    and "events s' = events s @ es" and "\<forall>e\<in>set es. P e"
    and "hooks s' = hooks s @ hooks_of es"
    and "\<forall>k. closeCalls (sockets s' k) = closeCalls (sockets s k) @ closes_of k es"
    and "\<forall>c. received (consumers s' c) = received (consumers s c) @ notes_of c es"
    and "\<forall>c. frozen (consumers s c) \<longrightarrow> notes_of c es = []"
    and "\<forall>c. rec_step (consumers s c) (consumers s' c)"
    and "\<forall>c. calls_of c (mux_calls s') @ unsub_calls c (consumers s' c)
             = calls_of c (mux_calls s) @ unsub_calls c (consumers s c)"
    and "\<forall>c. registered_ok s c \<longrightarrow> registered_ok s' c"
    and "\<forall>h c. count_list (observers (hubs s' h)) c \<le> count_list (observers (hubs s h)) c"
  shows "grows P s s'"
proof -
  have "events s' = events s @ es \<and> (\<forall>e\<in>set es. P e)
            \<and> hooks s' = hooks s @ hooks_of es
            \<and> (\<forall>k. closeCalls (sockets s' k) = closeCalls (sockets s k) @ closes_of k es)
            \<and> (\<forall>c. received (consumers s' c) = received (consumers s c) @ notes_of c es
                  \<and> (frozen (consumers s c) \<longrightarrow> notes_of c es = []))"
    using assms(3-8) by blast
  then have "\<exists>es. events s' = events s @ es \<and> (\<forall>e\<in>set es. P e)
            \<and> hooks s' = hooks s @ hooks_of es
            \<and> (\<forall>k. closeCalls (sockets s' k) = closeCalls (sockets s k) @ closes_of k es)
            \<and> (\<forall>c. received (consumers s' c) = received (consumers s c) @ notes_of c es
                  \<and> (frozen (consumers s c) \<longrightarrow> notes_of c es = []))"
    by (rule exI)
  then show ?thesis unfolding grows_def using assms(1,2,9,10,11,12) by blast
qed

lemma registered_ok_mono:
  assumes "\<forall>h. count_list (observers (hubs s' h)) c \<le> count_list (observers (hubs s h)) c"
    and "s_closed (hsub (consumers s' c)) = s_closed (hsub (consumers s c))"
    and "finalizers (hsub (consumers s' c)) = finalizers (hsub (consumers s c))"
    and "registered_ok s c"
  shows "registered_ok s' c"
  unfolding registered_ok_def
proof
  fix h
  have "count_list (observers (hubs s' h)) c \<le> count_list (observers (hubs s h)) c"
    using assms(1) by blast
  also have "\<dots> \<le> (if \<not> s_closed (hsub (consumers s c))
                   \<and> RemoveFrom h \<in> set (finalizers (hsub (consumers s c)))
               then 1 else 0)"
    using assms(4) unfolding registered_ok_def by blast
  finally show "count_list (observers (hubs s' h)) c
         \<le> (if \<not> s_closed (hsub (consumers s' c))
                   \<and> RemoveFrom h \<in> set (finalizers (hsub (consumers s' c)))
               then 1 else 0)"
    using assms(2,3) by simp
qed

lemma grows_silent:
  assumes "cfg s' = cfg s" and "next_consumer s' = next_consumer s"
    and "events s' = events s" and "hooks s' = hooks s"
    and "\<forall>k. closeCalls (sockets s' k) = closeCalls (sockets s k)"
    and "consumers s' = consumers s" and "mux_calls s' = mux_calls s"
    and "\<forall>h c. count_list (observers (hubs s' h)) c \<le> count_list (observers (hubs s h)) c"
  shows "grows P s s'"
proof (rule growsI [where es = "[]"])
  show "\<forall>c. registered_ok s c \<longrightarrow> registered_ok s' c"
    using registered_ok_mono [of s' _ s] assms(6,8) by simp
qed (use assms in simp_all)

lemma count_list_tl: "count_list (tl xs) c \<le> count_list xs c"
  by (cases xs) simp_all

lemma count_list_remove1: "count_list (remove1 d xs) c \<le> count_list xs c"
  by (induction xs) auto

lemma count_list_remove1_self: "count_list (remove1 c xs) c = count_list xs c - 1"
  by (induction xs) auto

lemma count_list_remove1_other: "d \<noteq> c \<Longrightarrow> count_list (remove1 d xs) c = count_list xs c"
  by (induction xs) auto

lemma grows_destination [simp]: "grows P s (s\<lparr>destination := d\<rparr>)"
  by (rule grows_silent) simp_all

lemma grows_socket_send [simp]: "grows P s (socket_send k m s)"
  by (rule grows_silent) (simp_all add: prim_defs)

lemma grows_sock_flags [simp]:
  "grows P s (sock_upd k (\<lambda>x. x\<lparr>d_isStopped := b\<rparr>) s)"
  "grows P s (sock_upd k (\<lambda>x. x\<lparr>d_closed := b\<rparr>) s)"
  by (rule grows_silent; simp add: prim_defs)+

lemma grows_resetState [simp]: "grows P s (resetState s)"
  by (rule grows_silent) (simp_all add: new_subject_def)

lemma grows_shift [simp]: "grows P s (shift h s)"
  by (rule grows_silent) (simp_all add: shift_def count_list_tl)

lemma grows_hub_flags [simp]:
  "grows P s (hub_upd h (\<lambda>x. x\<lparr>isStopped := True\<rparr>) s)"
  "grows P s (hub_upd h (\<lambda>x. x\<lparr>isStopped := True, hasError := True, thrownError := e\<rparr>) s)"
  by (rule grows_silent; simp)+

lemma grows_remove [simp]:
  "grows P s (hub_upd h (\<lambda>x. x\<lparr>observers := remove1 d (observers x)\<rparr>) s)"
  by (rule grows_silent) (simp_all add: count_list_remove1)

lemma grows_close:
  assumes "P (Closed k a b)"
  shows "grows P s (socket_close k a b s)"
proof (rule growsI [where es = "[Closed k a b]"])
  show "\<forall>c. registered_ok s c \<longrightarrow> registered_ok (socket_close k a b s) c"
    using registered_ok_mono [of "socket_close k a b s" _ s] by (simp add: prim_defs)
qed (use assms in \<open>simp_all add: prim_defs\<close>)

lemma grows_hook:
  assumes "b \<longrightarrow> P (Hooked x)"
  shows "grows P s (call_hook b x s)"
proof (cases b)
  case True
  show ?thesis
  proof (rule growsI [where es = "[Hooked x]"])
    show "\<forall>c. registered_ok s c \<longrightarrow> registered_ok (call_hook b x s) c"
      using registered_ok_mono [of "call_hook b x s" _ s] by simp
  qed (use assms True in \<open>simp_all\<close>)
next
  case False
  then show ?thesis by (simp add: call_hook_def)
qed

lemma grows_refcount:
  assumes "\<forall>k. P (Closed k Undefined Undefined)"
  shows "grows P s (refcount s)"
proof -
  have "grows P s (resetState (socket_close k Undefined Undefined s))" for k
    using grows_trans [OF grows_close grows_resetState] assms by blast
  then show ?thesis
    by (auto simp: refcount_def split: option.splits)
qed


lemma rec_step_received [simp]: "rec_step r (r'\<lparr>received := x\<rparr>) = rec_step r r'"
  by (cases "chan r"; cases "chan r'") (simp_all add: rec_step_def)

lemma grows_consumer_upd:
  assumes "rec_step (consumers s c) (f (consumers s c))"
    and "received (f (consumers s c)) = received (consumers s c)"
    and "unsub_calls c (f (consumers s c)) = unsub_calls c (consumers s c)"
    and "s_closed (hsub (f (consumers s c))) = s_closed (hsub (consumers s c))"
    and "finalizers (hsub (f (consumers s c))) = finalizers (hsub (consumers s c))"
  shows "grows P s (consumer_upd c f s)"
proof (rule growsI [where es = "[]"])
  show "\<forall>d. registered_ok s d \<longrightarrow> registered_ok (consumer_upd c f s) d"
    using registered_ok_mono [of "consumer_upd c f s" _ s] assms(4,5) by simp
qed (use assms in simp_all)

lemma grows_notify_upd:
  assumes "\<not> frozen (consumers s c)" and "P (Notified c n)"
    and "rec_step (consumers s c) (f (consumers s c))"
    and "received (f (consumers s c)) = received (consumers s c)"
    and "unsub_calls c (f (consumers s c)) = unsub_calls c (consumers s c)"
    and "s_closed (hsub (f (consumers s c))) = s_closed (hsub (consumers s c))"
    and "finalizers (hsub (f (consumers s c))) = finalizers (hsub (consumers s c))"
  shows "grows P s (notify c n (consumer_upd c f s))"
proof (rule growsI [where es = "[Notified c n]"])
  let ?t = "notify c n (consumer_upd c f s)"
  have r: "consumers ?t = (consumers s)(c := (f (consumers s c))\<lparr>received := received (consumers s c) @ [n]\<rparr>)"
    using assms(4) by (simp add: notify_def consumer_upd_def)
  show "\<forall>d. registered_ok s d \<longrightarrow> registered_ok ?t d"
    using registered_ok_mono [of ?t _ s] assms(6,7) r by (simp add: notify_def consumer_upd_def)
  show "\<forall>d. rec_step (consumers s d) (consumers ?t d)"
    using assms(3) r by simp
  show "\<forall>d. calls_of d (mux_calls ?t) @ unsub_calls d (consumers ?t d)
             = calls_of d (mux_calls s) @ unsub_calls d (consumers s d)"
    using assms(5) r by (simp add: notify_def consumer_upd_def unsub_calls_def)
  show "\<forall>d. received (consumers ?t d) = received (consumers s d) @ notes_of d [Notified c n]"
    using r by simp
  show "\<forall>d. frozen (consumers s d) \<longrightarrow> notes_of d [Notified c n] = []"
    using assms(1) by auto
qed (use assms in \<open>simp_all add: notify_def consumer_upd_def\<close>)

lemma grows_notify:
  assumes "\<not> frozen (consumers s c)" and "P (Notified c n)"
  shows "grows P s (notify c n s)"
proof -
  have e: "consumer_upd c (\<lambda>x. x) s = s" by (simp add: consumer_upd_def)
  have "grows P s (notify c n (consumer_upd c (\<lambda>x. x) s))"
    by (rule grows_notify_upd) (use assms in simp_all)
  then show ?thesis unfolding e .
qed

lemma grows_stop_hsub [simp]:
  "grows P s (consumer_upd c (\<lambda>x. x\<lparr>hsub := (hsub x)\<lparr>s_isStopped := True\<rparr>\<rparr>) s)"
  by (rule grows_consumer_upd) (simp_all add: rec_step_def unsub_calls_def split: option.split)

lemma grows_closing:
  assumes "chan (consumers s c) = Some ch" and "\<not> o_closed ch"
  shows "grows P s ((chan_upd c (\<lambda>x. x\<lparr>o_isStopped := True, o_closed := True\<rparr>) s)
                     \<lparr>mux_calls := mux_calls s @ unsub_calls c (consumers s c)\<rparr>)"
proof (rule growsI [where es = "[]"])
  let ?t = "(chan_upd c (\<lambda>x. x\<lparr>o_isStopped := True, o_closed := True\<rparr>) s)
                     \<lparr>mux_calls := mux_calls s @ unsub_calls c (consumers s c)\<rparr>"
  have r: "consumers ?t = (consumers s)(c := (consumers s c)\<lparr>chan := Some (ch\<lparr>o_isStopped := True, o_closed := True\<rparr>)\<rparr>)"
    using assms(1) by (simp add: chan_upd_def)
  show "\<forall>d. registered_ok s d \<longrightarrow> registered_ok ?t d"
    using registered_ok_mono [of ?t _ s] r by (simp add: chan_upd_def)
  have "rec_step (consumers s c) ((consumers s c)\<lparr>chan := Some (ch\<lparr>o_isStopped := True, o_closed := True\<rparr>)\<rparr>)"
    using assms(1) by (simp add: rec_step_def)
  then show "\<forall>d. rec_step (consumers s d) (consumers ?t d)"
    using r by simp
  show "\<forall>d. calls_of d (mux_calls ?t) @ unsub_calls d (consumers ?t d)
             = calls_of d (mux_calls s) @ unsub_calls d (consumers s d)"
    using assms r by (simp add: unsub_calls_def)
qed (use assms in \<open>simp_all add: chan_upd_def\<close>)


lemma growsD:
  assumes "grows P s s'"
  obtains es where "cfg s' = cfg s" and "next_consumer s' = next_consumer s"
    and "events s' = events s @ es" and "\<forall>e\<in>set es. P e"
    and "hooks s' = hooks s @ hooks_of es"
    and "\<forall>k. closeCalls (sockets s' k) = closeCalls (sockets s k) @ closes_of k es"
    and "\<forall>c. received (consumers s' c) = received (consumers s c) @ notes_of c es"
    and "\<forall>c. frozen (consumers s c) \<longrightarrow> notes_of c es = []"
    and "\<forall>c. rec_step (consumers s c) (consumers s' c)"
    and "\<forall>c. calls_of c (mux_calls s') @ unsub_calls c (consumers s' c)
             = calls_of c (mux_calls s) @ unsub_calls c (consumers s c)"
    and "\<forall>c. registered_ok s c \<longrightarrow> registered_ok s' c"
    and "\<forall>h c. count_list (observers (hubs s' h)) c \<le> count_list (observers (hubs s h)) c"
  using assms unfolding grows_def by blast

lemma grows_exec_finalizer:
  assumes "\<forall>k. P (Closed k Undefined Undefined)"
  shows "grows P s (exec_finalizer c f s)"
  using assms by (cases f) (simp_all add: grows_refcount)

lemma grows_fold_finalizers:
  assumes "\<forall>k. P (Closed k Undefined Undefined)"
  shows "grows P s (fold (exec_finalizer c) fs s)"
proof (induction fs arbitrary: s)
  case Nil
  show ?case by simp
next
  case (Cons f fs)
  have "grows P s (exec_finalizer c f s)" using assms by (rule grows_exec_finalizer)
  moreover have "grows P (exec_finalizer c f s) (fold (exec_finalizer c) fs (exec_finalizer c f s))"
    by (rule Cons.IH)
  ultimately show ?case using grows_trans by simp
qed

lemma count_refcount:
  "count_list (observers (hubs (refcount s) h)) c \<le> count_list (observers (hubs s h)) c"
  by (auto simp: refcount_def prim_defs new_subject_def split: option.splits)

lemma count_fold_finalizers:
  "count_list (observers (hubs (fold (exec_finalizer c) fs s) h)) c
   \<le> count_list (observers (hubs s h)) c - (if RemoveFrom h \<in> set fs then 1 else 0)"
proof (induction fs arbitrary: s)
  case Nil
  show ?case by simp
next
  case (Cons f fs)
  let ?u = "exec_finalizer c f s"
  have ih: "count_list (observers (hubs (fold (exec_finalizer c) fs ?u) h)) c
          \<le> count_list (observers (hubs ?u h)) c - (if RemoveFrom h \<in> set fs then 1 else 0)"
    by (rule Cons.IH)
  show ?case
  proof (cases f)
    case Refcount
    have "count_list (observers (hubs ?u h)) c \<le> count_list (observers (hubs s h)) c"
      using Refcount count_refcount by simp
    then show ?thesis using ih Refcount by simp
  next
    case (RemoveFrom g)
    show ?thesis
    proof (cases "g = h")
      case True
      have "count_list (observers (hubs ?u h)) c = count_list (observers (hubs s h)) c - 1"
        using RemoveFrom True by (simp add: count_list_remove1_self)
      then show ?thesis using ih RemoveFrom True by simp
    next
      case False
      have "count_list (observers (hubs ?u h)) c = count_list (observers (hubs s h)) c"
        using RemoveFrom False by simp
      then show ?thesis using ih RemoveFrom False by simp
    qed
  qed
qed

lemma grows_hsub_unsubscribe:
  assumes pc: "\<forall>k. P (Closed k Undefined Undefined)"
  shows "grows P s (hsub_unsubscribe c s)"
proof (cases "s_closed (hsub (consumers s c))")
  case True
  then show ?thesis by (simp add: hsub_unsubscribe_def)
next
  case False
  define fs where "fs = finalizers (hsub (consumers s c))"
  define t0 where "t0 = consumer_upd c (\<lambda>x. x\<lparr>hsub := \<lparr>s_isStopped = True, s_closed = True, finalizers = []\<rparr>\<rparr>) s"
  define t where "t = fold (exec_finalizer c) fs t0"
  have e: "hsub_unsubscribe c s = t"
    using False by (simp add: hsub_unsubscribe_def Let_def t_def t0_def fs_def)
  have g: "grows P t0 t" unfolding t_def using pc by (rule grows_fold_finalizers)
  have c0: "consumers t0 = (consumers s)(c := (consumers s c)\<lparr>hsub := \<lparr>s_isStopped = True, s_closed = True, finalizers = []\<rparr>\<rparr>)"
    "hubs t0 = hubs s" "cfg t0 = cfg s" "next_consumer t0 = next_consumer s" "events t0 = events s"
    "hooks t0 = hooks s" "sockets t0 = sockets s" "mux_calls t0 = mux_calls s"
    by (simp_all add: t0_def)
  have r0: "rec_step (consumers s d) (consumers t0 d)" for d
    unfolding c0(1) by (simp add: rec_step_def split: option.split)
  have f0: "frozen (consumers s d) \<longrightarrow> frozen (consumers t0 d)" for d
    using rec_step_frozen [OF r0] by blast
  have u0: "unsub_calls d (consumers t0 d) = unsub_calls d (consumers s d)" for d
    unfolding c0(1) by (simp add: unsub_calls_def)
  from g obtain es where
    g: "cfg t = cfg t0" "next_consumer t = next_consumer t0"
      "events t = events t0 @ es" "\<forall>e\<in>set es. P e"
      "hooks t = hooks t0 @ hooks_of es"
      "\<forall>k. closeCalls (sockets t k) = closeCalls (sockets t0 k) @ closes_of k es"
      "\<forall>c. received (consumers t c) = received (consumers t0 c) @ notes_of c es"
      "\<forall>c. frozen (consumers t0 c) \<longrightarrow> notes_of c es = []"
      "\<forall>c. rec_step (consumers t0 c) (consumers t c)"
      "\<forall>c. calls_of c (mux_calls t) @ unsub_calls c (consumers t c)
             = calls_of c (mux_calls t0) @ unsub_calls c (consumers t0 c)"
      "\<forall>c. registered_ok t0 c \<longrightarrow> registered_ok t c"
      "\<forall>h c. count_list (observers (hubs t h)) c \<le> count_list (observers (hubs t0 h)) c"
    by (rule growsD)
  have reg: "registered_ok t d" if ok: "registered_ok s d" for d
  proof (cases "d = c")
    case False
    have "registered_ok t0 d"
      using registered_ok_mono [of t0 d s] ok False c0 by simp
    then show ?thesis using g(11) by blast
  next
    case True
    have cl: "s_closed (hsub (consumers t c))"
      using g(9) c0(1) by (auto simp: rec_step_def)
    have "count_list (observers (hubs t h)) c = 0" for h
    proof -
      have "count_list (observers (hubs t h)) c
            \<le> count_list (observers (hubs s h)) c - (if RemoveFrom h \<in> set fs then 1 else 0)"
        using count_fold_finalizers [of c fs t0 h] c0(2) by (simp add: t_def)
      moreover have "count_list (observers (hubs s h)) c
                     \<le> (if RemoveFrom h \<in> set fs then 1 else 0)"
        using ok False True unfolding registered_ok_def fs_def by auto
      ultimately show ?thesis by (simp split: if_splits)
    qed
    then show ?thesis using True cl by (simp add: registered_ok_def)
  qed
  have "grows P s t"
  proof (rule growsI [where es = es])
    show "\<forall>d. rec_step (consumers s d) (consumers t d)"
      using r0 g(9) rec_step_trans by blast
    show "\<forall>d. frozen (consumers s d) \<longrightarrow> notes_of d es = []"
      using f0 g(8) by blast
    show "\<forall>d. received (consumers t d) = received (consumers s d) @ notes_of d es"
      using g(7) c0(1) by simp
    show "\<forall>d. calls_of d (mux_calls t) @ unsub_calls d (consumers t d)
             = calls_of d (mux_calls s) @ unsub_calls d (consumers s d)"
      using g(10) u0 c0(8) by simp
    show "\<forall>d. registered_ok s d \<longrightarrow> registered_ok t d" using reg by blast
  qed (use g c0 in simp_all)
  then show ?thesis unfolding e .
qed


lemma outer_unsubscribe_grows:
  assumes send: "\<And>u t t'. send u t = Some t' \<Longrightarrow> grows P t t'"
    and pc: "\<forall>k. P (Closed k Undefined Undefined)"
    and r: "outer_unsubscribe send c s = Some s'"
  shows "grows P s s'"
proof (cases "chan (consumers s c)")
  case None
  then show ?thesis using r by (simp add: outer_unsubscribe_def)
next
  case (Some ch)
  show ?thesis
  proof (cases "o_closed ch")
    case True
    then show ?thesis using r Some by (simp add: outer_unsubscribe_def)
  next
    case False
    define s1 where "s1 = chan_upd c (\<lambda>x. x\<lparr>o_isStopped := True, o_closed := True\<rparr>) s"
    define x where "x = s1\<lparr>mux_calls := mux_calls s @ unsub_calls c (consumers s c)\<rparr>"
    have gx: "grows P s x"
      unfolding x_def s1_def using Some False by (rule grows_closing)
    have m1: "mux_calls s1 = mux_calls s" by (simp add: s1_def chan_upd_def)
    have c1: "chan (consumers s1 c) = Some (ch\<lparr>o_isStopped := True, o_closed := True\<rparr>)"
      using Some by (simp add: s1_def chan_upd_def)
    show ?thesis
    proof (cases "o_teardown ch")
      case nt: False
      have "unsub_calls c (consumers s c) = []" using Some nt by (simp add: unsub_calls_def)
      then have "x = s1" using m1 by (simp add: x_def)
      moreover have "s' = s1"
        using r Some False nt by (simp add: outer_unsubscribe_def s1_def)
      ultimately show ?thesis using gx by simp
    next
      case td: True
      have r1: "teardown send c s1 = Some s'"
        using r Some False td by (simp add: outer_unsubscribe_def s1_def)
      have u: "unsub_calls c (consumers s c) = msg_call c (unsubMsg ch)"
        using Some False td by (simp add: unsub_calls_def)
      show ?thesis
      proof (cases "unsubMsg ch")
        case (Inl e)
        have "x = s1" using u Inl m1 by (simp add: x_def)
        moreover have "s' = hsub_unsubscribe c s1"
          using r1 c1 Inl by (simp add: teardown_def)
        ultimately show ?thesis
          using grows_trans [OF gx grows_hsub_unsubscribe [OF pc]] by simp
      next
        case (Inr v)
        have xe: "x = s1\<lparr>mux_calls := mux_calls s1 @ [UnsubMsg c v]\<rparr>"
          using u Inr m1 by (simp add: x_def)
        from r1 c1 Inr obtain t where
          t: "send v x = Some t" "s' = hsub_unsubscribe c t"
          unfolding xe by (auto simp: teardown_def bind_eq_Some_conv)
        have "grows P x t" using send t(1) .
        then have "grows P s t" using gx grows_trans by blast
        then show ?thesis
          unfolding t(2) using grows_trans grows_hsub_unsubscribe [OF pc] by blast
      qed
    qed
  qed
qed

lemma outer_stop_grows:
  assumes send: "\<And>u t t'. send u t = Some t' \<Longrightarrow> grows P t t'"
    and pc: "\<forall>k. P (Closed k Undefined Undefined)"
    and pn: "P (Notified c n)"
    and r: "outer_stop send c n s = Some s'"
  shows "grows P s s'"
proof (cases "chan (consumers s c)")
  case None
  then show ?thesis using r by (simp add: outer_stop_def)
next
  case (Some ch)
  show ?thesis
  proof (cases "o_isStopped ch")
    case True
    then show ?thesis using r Some by (simp add: outer_stop_def)
  next
    case False
    define s1 where "s1 = notify c n (chan_upd c (\<lambda>x. x\<lparr>o_isStopped := True\<rparr>) s)"
    have "grows P s (notify c n (consumer_upd c (\<lambda>x. x\<lparr>chan := map_option (\<lambda>x. x\<lparr>o_isStopped := True\<rparr>) (chan x)\<rparr>) s))"
      by (rule grows_notify_upd)
        (use Some False pn in \<open>simp_all add: frozen_def rec_step_def unsub_calls_def\<close>)
    then have g1: "grows P s s1" by (simp add: s1_def chan_upd_def)
    have ou: "outer_unsubscribe send c s1 = Some s'"
      using r Some False by (simp add: outer_stop_def s1_def)
    have "grows P s1 s'" using outer_unsubscribe_grows [OF send pc ou] .
    then show ?thesis using g1 grows_trans by blast
  qed
qed

lemma consumer_stop_grows:
  assumes send: "\<And>u t t'. send u t = Some t' \<Longrightarrow> grows P t t'"
    and pc: "\<forall>k. P (Closed k Undefined Undefined)"
    and pn: "P (Notified c n)"
    and r: "consumer_stop send c n s = Some s'"
  shows "grows P s s'"
proof (cases "s_isStopped (hsub (consumers s c))")
  case True
  then show ?thesis using r by (simp add: consumer_stop_def)
next
  case False
  define s0 where "s0 = consumer_upd c (\<lambda>x. x\<lparr>hsub := (hsub x)\<lparr>s_isStopped := True\<rparr>\<rparr>) s"
  have g0: "grows P s s0" by (simp add: s0_def)
  have c0: "chan (consumers s0 c) = chan (consumers s c)" by (simp add: s0_def)
  show ?thesis
  proof (cases "chan (consumers s c)")
    case None
    have "grows P s (notify c n (consumer_upd c (\<lambda>x. x\<lparr>hsub := (hsub x)\<lparr>s_isStopped := True\<rparr>\<rparr>) s))"
      by (rule grows_notify_upd)
        (use None False pn in \<open>simp_all add: frozen_def rec_step_def unsub_calls_def\<close>)
    then have g1: "grows P s (notify c n s0)" by (simp add: s0_def)
    have "s' = hsub_unsubscribe c (notify c n s0)"
      using r False None c0 by (simp add: consumer_stop_def Let_def s0_def)
    then show ?thesis using g1 grows_trans grows_hsub_unsubscribe [OF pc] by blast
  next
    case (Some ch)
    from r False Some c0 obtain t where
      t: "outer_stop send c n s0 = Some t" "s' = hsub_unsubscribe c t"
      by (auto simp: consumer_stop_def Let_def s0_def bind_eq_Some_conv)
    have "grows P s0 t" using outer_stop_grows [OF send pc pn t(1)] .
    then have "grows P s t" using g0 grows_trans by blast
    then show ?thesis unfolding t(2) using grows_trans grows_hsub_unsubscribe [OF pc] by blast
  qed
qed

lemma consumer_next_grows:
  assumes send: "\<And>u t t'. send u t = Some t' \<Longrightarrow> grows P t t'"
    and pc: "\<forall>k. P (Closed k Undefined Undefined)"
    and pe: "\<forall>e. P (Notified c (Error e))"
    and pv: "passes (consumers s c) v \<longrightarrow> P (Notified c (Next v))"
    and r: "consumer_next send c v s = Some s'"
  shows "grows P s s'"
proof (cases "s_isStopped (hsub (consumers s c))")
  case True
  then show ?thesis using r by (simp add: consumer_next_def)
next
  case False
  show ?thesis
  proof (cases "chan (consumers s c)")
    case None
    have "s' = notify c (Next v) s" using r False None by (simp add: consumer_next_def)
    moreover have "grows P s (notify c (Next v) s)"
      by (rule grows_notify) (use None False pv in \<open>simp_all add: frozen_def passes_def\<close>)
    ultimately show ?thesis by simp
  next
    case (Some ch)
    show ?thesis
    proof (cases "messageFilter ch v")
      case (Inl e)
      have os: "outer_stop send c (Error e) s = Some s'"
        using r False Some Inl by (simp add: consumer_next_def outer_error_def)
      have pn: "P (Notified c (Error e))" using pe by blast
      show ?thesis using outer_stop_grows [OF send pc pn os] .
    next
      case (Inr b)
      show ?thesis
      proof (cases "b \<and> \<not> o_isStopped ch")
        case True
        have "s' = notify c (Next v) s"
          using r False Some Inr True by (simp add: consumer_next_def outer_next_def)
        moreover have "grows P s (notify c (Next v) s)"
          by (rule grows_notify) (use Some Inr True pv in \<open>simp_all add: frozen_def passes_def\<close>)
        ultimately show ?thesis by simp
      next
        case no: False
        have "s' = s"
          using r False Some Inr no by (auto simp: consumer_next_def outer_next_def)
        then show ?thesis by simp
      qed
    qed
  qed
qed


lemma rec_step_passes: "rec_step r r' \<Longrightarrow> passes r' v = passes r v"
  unfolding rec_step_def passes_def
  by (cases "chan r"; cases "chan r'") auto

lemma grows_passes: "grows P s s' \<Longrightarrow> passes (consumers s' c) v = passes (consumers s c) v"
  using rec_step_passes unfolding grows_def by blast

lemma each_stop_grows:
  assumes send: "\<And>u t t'. send u t = Some t' \<Longrightarrow> grows P t t'"
    and pc: "\<forall>k. P (Closed k Undefined Undefined)"
    and pn: "\<forall>c. P (Notified c n)"
  shows "each (\<lambda>c t. consumer_stop send c n (shift h t)) cs s = Some s' \<Longrightarrow> grows P s s'"
proof (induction cs arbitrary: s)
  case Nil
  then show ?case by simp
next
  case (Cons c cs)
  from Cons.prems obtain t where
    t: "consumer_stop send c n (shift h s) = Some t"
      "each (\<lambda>c t. consumer_stop send c n (shift h t)) cs t = Some s'"
    by (auto simp: bind_eq_Some_conv)
  have p: "P (Notified c n)" using pn by blast
  have "grows P (shift h s) t" using consumer_stop_grows [OF send pc p t(1)] .
  then have "grows P s t" using grows_trans [OF grows_shift] by blast
  moreover have "grows P t s'" using Cons.IH [OF t(2)] .
  ultimately show ?case using grows_trans by blast
qed

lemma hub_error_grows:
  assumes send: "\<And>u t t'. send u t = Some t' \<Longrightarrow> grows P t t'"
    and pc: "\<forall>k. P (Closed k Undefined Undefined)"
    and pn: "\<forall>c. P (Notified c (Error e))"
    and r: "hub_error send h e s = Some s'"
  shows "grows P s s'"
proof (cases "isStopped (hubs s h)")
  case True
  then show ?thesis using r by (simp add: hub_error_def)
next
  case False
  let ?t = "hub_upd h (\<lambda>x. x\<lparr>isStopped := True, hasError := True, thrownError := e\<rparr>) s"
  have ea: "each (\<lambda>c t. consumer_stop send c (Error e) (shift h t)) (observers (hubs s h)) ?t = Some s'"
    using r False by (simp add: hub_error_def consumer_error_def)
  have "grows P ?t s'" using each_stop_grows [OF send pc pn ea] .
  then show ?thesis using grows_trans [OF grows_hub_flags(2)] by blast
qed

lemma hub_complete_grows:
  assumes send: "\<And>u t t'. send u t = Some t' \<Longrightarrow> grows P t t'"
    and pc: "\<forall>k. P (Closed k Undefined Undefined)"
    and pn: "\<forall>c. P (Notified c Complete)"
    and r: "hub_complete send h s = Some s'"
  shows "grows P s s'"
proof (cases "isStopped (hubs s h)")
  case True
  then show ?thesis using r by (simp add: hub_complete_def)
next
  case False
  let ?t = "hub_upd h (\<lambda>x. x\<lparr>isStopped := True\<rparr>) s"
  have ea: "each (\<lambda>c t. consumer_stop send c Complete (shift h t)) (observers (hubs s h)) ?t = Some s'"
    using r False by (simp add: hub_complete_def consumer_complete_def)
  have "grows P ?t s'" using each_stop_grows [OF send pc pn ea] .
  then show ?thesis using grows_trans [OF grows_hub_flags(1)] by blast
qed

lemma each_next_grows:
  assumes send: "\<And>u t t'. send u t = Some t' \<Longrightarrow> grows P t t'"
    and pc: "\<forall>k. P (Closed k Undefined Undefined)"
    and pe: "\<forall>c e. P (Notified c (Error e))"
  shows "each (\<lambda>c. consumer_next send c v) cs s = Some s'
         \<Longrightarrow> \<forall>c. passes (consumers s c) v \<longrightarrow> P (Notified c (Next v))
         \<Longrightarrow> grows P s s'"
proof (induction cs arbitrary: s)
  case Nil
  then show ?case by simp
next
  case (Cons c cs)
  from Cons.prems(1) obtain t where
    t: "consumer_next send c v s = Some t" "each (\<lambda>c. consumer_next send c v) cs t = Some s'"
    by (auto simp: bind_eq_Some_conv)
  have p1: "\<forall>e. P (Notified c (Error e))" using pe by blast
  have p2: "passes (consumers s c) v \<longrightarrow> P (Notified c (Next v))" using Cons.prems(2) by blast
  have g: "grows P s t" using consumer_next_grows [OF send pc p1 p2 t(1)] .
  have "\<forall>c. passes (consumers t c) v \<longrightarrow> P (Notified c (Next v))"
    using Cons.prems(2) grows_passes [OF g] by simp
  then have "grows P t s'" using Cons.IH [OF t(2)] by blast
  then show ?case using g grows_trans by blast
qed

lemma hub_next_grows:
  assumes send: "\<And>u t t'. send u t = Some t' \<Longrightarrow> grows P t t'"
    and pc: "\<forall>k. P (Closed k Undefined Undefined)"
    and pe: "\<forall>c e. P (Notified c (Error e))"
    and pv: "\<forall>c. passes (consumers s c) v \<longrightarrow> P (Notified c (Next v))"
    and r: "hub_next send h v s = Some s'"
  shows "grows P s s'"
proof (cases "isStopped (hubs s h)")
  case True
  then show ?thesis using r by (simp add: hub_next_def)
next
  case False
  have ea: "each (\<lambda>c. consumer_next send c v) (observers (hubs s h)) s = Some s'"
    using r False by (simp add: hub_next_def)
  show ?thesis using each_next_grows [OF send pc pe ea pv] .
qed

lemma send_inert_grows: "send_inert u t = Some t' \<Longrightarrow> grows P t t'"
  by (auto simp: send_inert_def split: destination.splits if_splits)

lemma sender_error_grows:
  assumes ph: "P (Hooked ClosingHook)" and pc: "\<forall>k a b. P (Closed k a b)"
    and pn: "\<forall>c e. P (Notified c (Error e))"
    and r: "sender_error k err s = Some s'"
  shows "grows P s s'"
proof (cases "d_isStopped (sockets s k)")
  case True
  then show ?thesis using r by (simp add: sender_error_def)
next
  case False
  define s0 where "s0 = sock_upd k (\<lambda>x. x\<lparr>d_isStopped := True\<rparr>) s"
  define s1 where "s1 = call_hook (closingObserver (cfg s0)) ClosingHook s0"
  have g1: "grows P s s1"
    unfolding s1_def s0_def using grows_trans [OF grows_sock_flags(1) grows_hook] ph by blast
  have fin: "grows P t (sock_upd k (\<lambda>x. x\<lparr>d_closed := True\<rparr>) (resetState t))" for t
    using grows_trans [OF grows_resetState grows_sock_flags(2)] .
  show ?thesis
  proof (cases "truthy err \<and> truthy (get_prop err ''code'')")
    case True
    let ?s2 = "socket_close k (get_prop err ''code'') (get_prop err ''reason'') s1"
    have e: "s' = sock_upd k (\<lambda>x. x\<lparr>d_closed := True\<rparr>) (resetState ?s2)"
      using r False True by (simp add: sender_error_def Let_def s1_def s0_def)
    have "grows P s1 ?s2" using pc by (simp add: grows_close)
    then have "grows P s ?s2" using g1 grows_trans by blast
    then show ?thesis unfolding e using fin grows_trans by blast
  next
    case nc: False
    from r False nc obtain t where
      t: "hub_error send_inert (observer (sockets s1 k))
            (TypeError WEBSOCKETSUBJECT_INVALID_ERROR_OBJECT) s1 = Some t"
        "s' = sock_upd k (\<lambda>x. x\<lparr>d_closed := True\<rparr>) (resetState t)"
      by (auto simp: sender_error_def Let_def s1_def s0_def bind_eq_Some_conv)
    have p1: "\<forall>k. P (Closed k Undefined Undefined)" using pc by blast
    have p2: "\<forall>c. P (Notified c (Error (TypeError WEBSOCKETSUBJECT_INVALID_ERROR_OBJECT)))"
      using pn by blast
    have "grows P s1 t" using hub_error_grows [OF send_inert_grows p1 p2 t(1)] .
    then have "grows P s t" using g1 grows_trans by blast
    then show ?thesis unfolding t(2) using fin grows_trans by blast
  qed
qed

lemma ws_next_grows:
  assumes ph: "P (Hooked ClosingHook)" and pc: "\<forall>k a b. P (Closed k a b)"
    and pn: "\<forall>c e. P (Notified c (Error e))"
    and r: "ws_next v s = Some s'"
  shows "grows P s s'"
proof (cases "destination s")
  case (Queue q)
  then show ?thesis using r by (auto simp: ws_next_def)
next
  case (Sender k)
  then have r1: "sender_next k v s = Some s'" using r by (simp add: ws_next_def)
  show ?thesis
  proof (cases "serializer (cfg s) v")
    case (Inr m)
    then show ?thesis using r1 by (auto simp: sender_next_def split: if_splits)
  next
    case (Inl e)
    show ?thesis
    proof (cases "d_isStopped (sockets s k) \<or> readyState (sockets s k) \<noteq> 1")
      case True
      then show ?thesis using r1 by (auto simp: sender_next_def split: if_splits)
    next
      case False
      then have se: "sender_error k e s = Some s'"
        using r1 Inl Sender by (simp add: sender_next_def ws_error_def)
      show ?thesis using sender_error_grows [OF ph pc pn se] .
    qed
  qed
qed


lemma ws_next_total: "\<exists>s'. ws_next v s = Some s'"
proof (cases "destination s")
  case (Queue q)
  then show ?thesis by (simp add: ws_next_def)
next
  case (Sender k)
  show ?thesis
  proof (cases "serializer (cfg s) v")
    case (Inr m)
    then show ?thesis using Sender by (simp add: ws_next_def sender_next_def)
  next
    case (Inl e)
    show ?thesis
    proof (cases "d_isStopped (sockets s k) \<or> readyState (sockets s k) \<noteq> 1")
      case True
      then show ?thesis using Sender by (auto simp: ws_next_def sender_next_def)
    next
      case False
      then have n: "ws_next v s = sender_error k e s"
        using Sender Inl by (simp add: ws_next_def sender_next_def ws_error_def)
      have live: "\<not> d_isStopped (sockets s k)" using False by simp
      show ?thesis
      proof (cases "truthy e \<and> truthy (get_prop e ''code'')")
        case True
        show ?thesis unfolding n sender_error_coded [OF live True] by simp
      next
        case nc: False
        show ?thesis unfolding n using sender_error_uncoded [OF live Sender nc] by blast
      qed
    qed
  qed
qed

lemma outer_unsubscribe_total:
  assumes tot: "\<And>u t. \<exists>t'. send u t = Some t'"
  shows "\<exists>s'. outer_unsubscribe send c s = Some s'"
proof (cases "chan (consumers s c)")
  case None
  then show ?thesis by (simp add: outer_unsubscribe_def)
next
  case (Some ch)
  define s1 where "s1 = chan_upd c (\<lambda>x. x\<lparr>o_isStopped := True, o_closed := True\<rparr>) s"
  have c1: "chan (consumers s1 c) = Some (ch\<lparr>o_isStopped := True, o_closed := True\<rparr>)"
    using Some by (simp add: s1_def chan_upd_def)
  have "\<exists>s'. teardown send c s1 = Some s'"
  proof (cases "unsubMsg ch")
    case (Inl e)
    then show ?thesis using c1 by (simp add: teardown_def)
  next
    case (Inr v)
    from tot [of v "s1\<lparr>mux_calls := mux_calls s1 @ [UnsubMsg c v]\<rparr>"] obtain t where
      "send v (s1\<lparr>mux_calls := mux_calls s1 @ [UnsubMsg c v]\<rparr>) = Some t" by blast
    then show ?thesis using c1 Inr by (simp add: teardown_def)
  qed
  then show ?thesis using Some by (simp add: outer_unsubscribe_def s1_def Let_def)
qed

lemma outer_stop_total:
  assumes tot: "\<And>u t. \<exists>t'. send u t = Some t'"
  shows "\<exists>s'. outer_stop send c n s = Some s'"
  using outer_unsubscribe_total [OF tot]
  by (simp add: outer_stop_def split: option.split)

lemma consumer_stop_total:
  assumes tot: "\<And>u t. \<exists>t'. send u t = Some t'"
  shows "\<exists>s'. consumer_stop send c n s = Some s'"
proof (cases "s_isStopped (hsub (consumers s c))")
  case True
  then show ?thesis by (simp add: consumer_stop_def)
next
  case False
  let ?s0 = "consumer_upd c (\<lambda>x. x\<lparr>hsub := (hsub x)\<lparr>s_isStopped := True\<rparr>\<rparr>) s"
  have "\<exists>t. outer_stop send c n ?s0 = Some t" by (rule outer_stop_total [OF tot])
  then obtain t where "outer_stop send c n ?s0 = Some t" by blast
  then show ?thesis using False
    by (cases "chan (consumers s c)") (simp_all add: consumer_stop_def Let_def)
qed

lemma consumer_next_total:
  assumes tot: "\<And>u t. \<exists>t'. send u t = Some t'"
  shows "\<exists>s'. consumer_next send c v s = Some s'"
proof (cases "chan (consumers s c)")
  case None
  then show ?thesis by (simp add: consumer_next_def)
next
  case (Some ch)
  show ?thesis
  proof (cases "messageFilter ch v")
    case (Inr b)
    then show ?thesis using Some by (simp add: consumer_next_def)
  next
    case (Inl e)
    have "\<exists>t. outer_stop send c (Error e) s = Some t" by (rule outer_stop_total [OF tot])
    then show ?thesis
      using Some Inl by (simp add: consumer_next_def outer_error_def)
  qed
qed

lemma each_total:
  assumes "\<And>c t. \<exists>t'. f c t = Some t'"
  shows "\<exists>s'. each f cs s = Some s'"
proof (induction cs arbitrary: s)
  case Nil
  show ?case by simp
next
  case (Cons c cs)
  from assms [of c s] obtain t where t: "f c s = Some t" by blast
  from Cons.IH [of t] obtain s' where "each f cs t = Some s'" by blast
  then show ?case using t by simp
qed

lemma hub_error_total:
  assumes tot: "\<And>u t. \<exists>t'. send u t = Some t'"
  shows "\<exists>s'. hub_error send h e s = Some s'"
  unfolding hub_error_def consumer_error_def
  using each_total [of "\<lambda>c t. consumer_stop send c (Error e) (shift h t)"]
    consumer_stop_total [OF tot] by simp

lemma hub_complete_total:
  assumes tot: "\<And>u t. \<exists>t'. send u t = Some t'"
  shows "\<exists>s'. hub_complete send h s = Some s'"
  unfolding hub_complete_def consumer_complete_def
  using each_total [of "\<lambda>c t. consumer_stop send c Complete (shift h t)"]
    consumer_stop_total [OF tot] by simp

lemma hub_next_total:
  assumes tot: "\<And>u t. \<exists>t'. send u t = Some t'"
  shows "\<exists>s'. hub_next send h v s = Some s'"
  unfolding hub_next_def
  using each_total [of "\<lambda>c. consumer_next send c v"] consumer_next_total [OF tot] by simp

lemma socket_close_sel [simp]:
  "cfg (socket_close k a b s) = cfg s" "p_socket (socket_close k a b s) = p_socket s"
  "p_output (socket_close k a b s) = p_output s" "destination (socket_close k a b s) = destination s"
  "hubs (socket_close k a b s) = hubs s" "consumers (socket_close k a b s) = consumers s"
  "hooks (socket_close k a b s) = hooks s" "mux_calls (socket_close k a b s) = mux_calls s"
  "next_socket (socket_close k a b s) = next_socket s" "next_hub (socket_close k a b s) = next_hub s"
  "next_consumer (socket_close k a b s) = next_consumer s"
  "closeCalls (sockets (socket_close k a b s) j)
   = closeCalls (sockets s j) @ (if j = k then [(a, b)] else [])"
  by (simp_all add: socket_close_def sock_upd_def)

lemma sender_error_events:
  assumes live: "\<not> d_isStopped (sockets s k)"
    and uncoded: "\<not> (truthy err \<and> truthy (get_prop err ''code''))"
    and r: "sender_error k err s = Some s'"
  shows "\<exists>es. events s' = events s @ (if closingObserver (cfg s) then [Hooked ClosingHook] else []) @ es
           \<and> (\<forall>e\<in>set es. (\<exists>j. e = Closed j Undefined Undefined)
                  \<or> (\<exists>c. e = Notified c (Error (TypeError WEBSOCKETSUBJECT_INVALID_ERROR_OBJECT))))
           \<and> (\<forall>j. closeCalls (sockets s' j) = closeCalls (sockets s j) @ closes_of j es)
           \<and> (\<forall>c. received (consumers s' c) = received (consumers s c) @ notes_of c es)"
proof -
  define P where "P = (\<lambda>e. (\<exists>j. e = Closed j Undefined Undefined)
                  \<or> (\<exists>c. e = Notified c (Error (TypeError WEBSOCKETSUBJECT_INVALID_ERROR_OBJECT))))"
  define s1 where "s1 = call_hook (closingObserver (cfg s)) ClosingHook
                          (sock_upd k (\<lambda>x. x\<lparr>d_isStopped := True\<rparr>) s)"
  from r live uncoded obtain t where
    t: "hub_error send_inert (observer (sockets s1 k))
            (TypeError WEBSOCKETSUBJECT_INVALID_ERROR_OBJECT) s1 = Some t"
      "s' = sock_upd k (\<lambda>x. x\<lparr>d_closed := True\<rparr>) (resetState t)"
    by (auto simp: sender_error_def Let_def s1_def bind_eq_Some_conv)
  have p1: "\<forall>k. P (Closed k Undefined Undefined)" by (simp add: P_def)
  have p2: "\<forall>c. P (Notified c (Error (TypeError WEBSOCKETSUBJECT_INVALID_ERROR_OBJECT)))"
    by (simp add: P_def)
  have "grows P s1 t" using hub_error_grows [OF send_inert_grows p1 p2 t(1)] .
  then obtain es where
    g: "events t = events s1 @ es" "\<forall>e\<in>set es. P e"
      "\<forall>k. closeCalls (sockets t k) = closeCalls (sockets s1 k) @ closes_of k es"
      "\<forall>c. received (consumers t c) = received (consumers s1 c) @ notes_of c es"
    by (rule growsD)
  have "events s' = events s @ (if closingObserver (cfg s) then [Hooked ClosingHook] else []) @ es"
    using g(1) by (simp add: t(2) s1_def)
  moreover have "\<forall>j. closeCalls (sockets s' j) = closeCalls (sockets s j) @ closes_of j es"
    using g(3) by (simp add: t(2) s1_def)
  moreover have "\<forall>c. received (consumers s' c) = received (consumers s c) @ notes_of c es"
    using g(4) by (simp add: t(2) s1_def)
  ultimately show ?thesis using g(2) unfolding P_def by blast
qed

lemma demo_open_events: "events demo_open = [Hooked OpenHook]"
  by (simp add: demo_open_def demo_connecting_def eval_defs)


subsection \<open>Delivery of an inbound value\<close>

lemma notes_of_mem: "n \<in> set (notes_of c es) \<longleftrightarrow> Notified c n \<in> set es"
proof (induction es)
  case Nil
  show ?case by simp
next
  case (Cons e es)
  have "notes_of c (e # es) = note_of c e @ notes_of c es" by (simp add: notes_of_def)
  then show ?case using Cons by (cases e) auto
qed

lemma count_list_pos: "0 < count_list xs c \<longleftrightarrow> c \<in> set xs"
  by (induction xs) auto

lemma grows_observers:
  assumes "grows P s s'"
  shows "set (observers (hubs s' h)) \<subseteq> set (observers (hubs s h))"
proof
  fix c assume "c \<in> set (observers (hubs s' h))"
  then have "count_list (observers (hubs s' h)) c > 0" by (simp add: count_list_pos)
  moreover have "count_list (observers (hubs s' h)) c \<le> count_list (observers (hubs s h)) c"
    using assms unfolding grows_def by blast
  ultimately have "count_list (observers (hubs s h)) c > 0" by simp
  then show "c \<in> set (observers (hubs s h))" by (simp add: count_list_pos)
qed

lemma rec_step_unsub_ok:
  assumes "rec_step r r'" and "unsub_ok cf r v"
  shows "unsub_ok cf r' v"
  using assms unfolding rec_step_def unsub_ok_def
  by (cases "chan r"; cases "chan r'") auto

lemma unsub_encodes_grows:
  assumes g: "grows P s s'" and e: "unsub_encodes s h w"
  shows "unsub_encodes s' h w"
  unfolding unsub_encodes_def
proof
  fix c assume c: "c \<in> set (observers (hubs s' h))"
  then have c0: "c \<in> set (observers (hubs s h))" using grows_observers [OF g] by blast
  have rs: "rec_step (consumers s c) (consumers s' c)" and cf: "cfg s' = cfg s"
    using g unfolding grows_def by blast+
  have "unsub_ok (cfg s) (consumers s c) w" using e c0 unfolding unsub_encodes_def by blast
  then show "unsub_ok (cfg s') (consumers s' c) w"
    using rec_step_unsub_ok [OF rs] cf by simp
qed

lemma all_events_ok: "P = (\<lambda>e. True) \<Longrightarrow> P e"
  by simp

lemma ws_next_grows_any: "ws_next v s = Some s' \<Longrightarrow> grows (\<lambda>e. True) s s'"
  by (rule ws_next_grows) simp_all

lemma hub_next_forwards:
  "\<exists>s'. hub_next ws_next h v s = Some s'
     \<and> grows (\<lambda>e. \<forall>c w. e = Notified c (Next w) \<longrightarrow> w = v \<and> passes (consumers s c) v) s s'"
proof -
  define P where "P = (\<lambda>e. \<forall>c w. e = Notified c (Next w) \<longrightarrow> w = v \<and> passes (consumers s c) v)"
  from hub_next_total [of ws_next h v s] ws_next_total obtain s' where
    r: "hub_next ws_next h v s = Some s'" by blast
  have send: "\<And>u t t'. ws_next u t = Some t' \<Longrightarrow> grows P t t'"
    by (rule ws_next_grows) (simp_all add: P_def)
  have pc: "\<forall>k. P (Closed k Undefined Undefined)" by (simp add: P_def)
  have pe: "\<forall>c e. P (Notified c (Error e))" by (simp add: P_def)
  have pv: "\<forall>c. passes (consumers s c) v \<longrightarrow> P (Notified c (Next v))" by (simp add: P_def)
  have "grows P s s'" using hub_next_grows [OF send pc pe pv r] .
  then show ?thesis using r unfolding P_def by blast
qed


lemma quiet_send_encoding:
  "quiet_send (\<lambda>s. True) (\<lambda>u t. if isl (serializer (cfg t) u) then Some t else ws_next u t)"
proof -
  have "\<exists>s'. (if isl (serializer (cfg s) v) then Some s else ws_next v s) = Some s' \<and> frame s s'
           \<and> consumers s' = consumers s \<and> hubs s' = hubs s \<and> next_hub s' = next_hub s
           \<and> mux_calls s' = mux_calls s \<and> p_socket s' = p_socket s \<and> p_output s' = p_output s"
    for v s
  proof (cases "serializer (cfg s) v")
    case (Inl e)
    then show ?thesis by simp
  next
    case (Inr m)
    show ?thesis
    proof (cases "destination s")
      case (Queue q)
      then show ?thesis using Inr by (auto simp: ws_next_def frame_def)
    next
      case (Sender k)
      show ?thesis
      proof (cases "d_isStopped (sockets s k) \<or> readyState (sockets s k) \<noteq> 1")
        case True
        then have "ws_next v s = Some s" using Sender by (auto simp: ws_next_def sender_next_def)
        then show ?thesis using Inr by simp
      next
        case False
        then have "ws_next v s = Some (socket_send k m s)"
          using Sender Inr by (simp add: ws_next_def sender_next_def)
        then show ?thesis
          using Inr by (auto simp: frame_def socket_send_def sock_upd_def)
      qed
    qed
  qed
  then show ?thesis unfolding quiet_send_def by blast
qed

lemma stable_True: "stable (\<lambda>s. True)"
  by (simp add: stable_def)

lemma teardown_cong:
  assumes "\<forall>ch. chan (consumers s c) = Some ch \<longrightarrow> \<not> isl (unsubMsg ch)
             \<longrightarrow> \<not> isl (serializer (cfg s) (projr (unsubMsg ch)))"
  shows "teardown ws_next c s
         = teardown (\<lambda>u t. if isl (serializer (cfg t) u) then Some t else ws_next u t) c s"
proof (cases "chan (consumers s c)")
  case None
  then show ?thesis by (simp add: teardown_def)
next
  case (Some ch)
  show ?thesis
  proof (cases "unsubMsg ch")
    case (Inl e)
    then show ?thesis using Some by (simp add: teardown_def)
  next
    case (Inr u)
    then have "\<not> isl (serializer (cfg s) u)" using assms Some by auto
    then show ?thesis using Some Inr by (simp add: teardown_def)
  qed
qed

lemma outer_unsubscribe_cong:
  assumes "\<forall>ch. chan (consumers s c) = Some ch \<longrightarrow> \<not> isl (unsubMsg ch)
             \<longrightarrow> \<not> isl (serializer (cfg s) (projr (unsubMsg ch)))"
  shows "outer_unsubscribe ws_next c s
         = outer_unsubscribe (\<lambda>u t. if isl (serializer (cfg t) u) then Some t else ws_next u t) c s"
proof (cases "chan (consumers s c)")
  case None
  then show ?thesis by (simp add: outer_unsubscribe_def)
next
  case (Some ch)
  let ?s1 = "chan_upd c (\<lambda>x. x\<lparr>o_isStopped := True, o_closed := True\<rparr>) s"
  have "\<forall>ch. chan (consumers ?s1 c) = Some ch \<longrightarrow> \<not> isl (unsubMsg ch)
             \<longrightarrow> \<not> isl (serializer (cfg ?s1) (projr (unsubMsg ch)))"
    using assms Some by (simp add: chan_upd_def)
  then have "teardown ws_next c ?s1
         = teardown (\<lambda>u t. if isl (serializer (cfg t) u) then Some t else ws_next u t) c ?s1"
    by (rule teardown_cong)
  then show ?thesis using Some by (simp add: outer_unsubscribe_def Let_def)
qed

lemma outer_stop_cong:
  assumes "\<forall>ch. chan (consumers s c) = Some ch \<longrightarrow> \<not> isl (unsubMsg ch)
             \<longrightarrow> \<not> isl (serializer (cfg s) (projr (unsubMsg ch)))"
  shows "outer_stop ws_next c n s
         = outer_stop (\<lambda>u t. if isl (serializer (cfg t) u) then Some t else ws_next u t) c n s"
proof (cases "chan (consumers s c)")
  case None
  then show ?thesis by (simp add: outer_stop_def)
next
  case (Some ch)
  let ?s1 = "notify c n (chan_upd c (\<lambda>x. x\<lparr>o_isStopped := True\<rparr>) s)"
  have "\<forall>ch. chan (consumers ?s1 c) = Some ch \<longrightarrow> \<not> isl (unsubMsg ch)
             \<longrightarrow> \<not> isl (serializer (cfg ?s1) (projr (unsubMsg ch)))"
    using assms Some by (simp add: chan_upd_def notify_def consumer_upd_def)
  then have "outer_unsubscribe ws_next c ?s1
         = outer_unsubscribe (\<lambda>u t. if isl (serializer (cfg t) u) then Some t else ws_next u t) c ?s1"
    by (rule outer_unsubscribe_cong)
  then show ?thesis using Some by (simp add: outer_stop_def)
qed

lemma consumer_next_cong:
  assumes "unsub_ok (cfg s) (consumers s c) v"
  shows "consumer_next ws_next c v s
         = consumer_next (\<lambda>u t. if isl (serializer (cfg t) u) then Some t else ws_next u t) c v s"
proof (cases "chan (consumers s c)")
  case None
  then show ?thesis by (simp add: consumer_next_def)
next
  case (Some ch)
  show ?thesis
  proof (cases "messageFilter ch v")
    case (Inr b)
    then show ?thesis using Some by (simp add: consumer_next_def)
  next
    case (Inl e)
    then have "\<forall>ch. chan (consumers s c) = Some ch \<longrightarrow> \<not> isl (unsubMsg ch)
             \<longrightarrow> \<not> isl (serializer (cfg s) (projr (unsubMsg ch)))"
      using assms Some by (simp add: unsub_ok_def)
    then have "outer_stop ws_next c (Error e) s
         = outer_stop (\<lambda>u t. if isl (serializer (cfg t) u) then Some t else ws_next u t) c (Error e) s"
      by (rule outer_stop_cong)
    then show ?thesis using Some Inl by (simp add: consumer_next_def outer_error_def)
  qed
qed

lemma each_next_cong:
  "\<forall>c\<in>set cs. unsub_ok (cfg s) (consumers s c) v
   \<Longrightarrow> each (\<lambda>c. consumer_next ws_next c v) cs s
       = each (\<lambda>c. consumer_next (\<lambda>u t. if isl (serializer (cfg t) u) then Some t else ws_next u t) c v) cs s"
proof (induction cs arbitrary: s)
  case Nil
  show ?case by simp
next
  case (Cons c cs)
  let ?send = "\<lambda>u t. if isl (serializer (cfg t) u) then Some t else ws_next u t"
  have e: "consumer_next ws_next c v s = consumer_next ?send c v s"
    using Cons.prems by (simp add: consumer_next_cong)
  have "\<exists>t. consumer_next ws_next c v s = Some t"
    by (rule consumer_next_total) (rule ws_next_total)
  then obtain t where t: "consumer_next ws_next c v s = Some t" by blast
  have send: "\<And>u t t'. ws_next u t = Some t' \<Longrightarrow> grows (\<lambda>e. True) t t'"
    by (rule ws_next_grows_any)
  have g: "grows (\<lambda>e. True) s t"
    by (rule consumer_next_grows [OF send _ _ _ t]) simp_all
  have "\<forall>d\<in>set cs. unsub_ok (cfg t) (consumers t d) v"
  proof
    fix d assume d: "d \<in> set cs"
    have rs: "rec_step (consumers s d) (consumers t d)" and cf: "cfg t = cfg s"
      using g unfolding grows_def by blast+
    show "unsub_ok (cfg t) (consumers t d) v"
      using rec_step_unsub_ok [OF rs] Cons.prems d cf by simp
  qed
  then have ih: "each (\<lambda>c. consumer_next ws_next c v) cs t = each (\<lambda>c. consumer_next ?send c v) cs t"
    by (rule Cons.IH)
  have t': "consumer_next ?send c v s = Some t" using e t by simp
  have "each (\<lambda>c. consumer_next ws_next c v) (c # cs) s = each (\<lambda>c. consumer_next ws_next c v) cs t"
    using t by simp
  moreover have "each (\<lambda>c. consumer_next ?send c v) (c # cs) s = each (\<lambda>c. consumer_next ?send c v) cs t"
    using t' by simp
  ultimately show ?case using ih by simp
qed

lemma hub_next_cong:
  assumes "unsub_encodes s h v"
  shows "hub_next ws_next h v s
         = hub_next (\<lambda>u t. if isl (serializer (cfg t) u) then Some t else ws_next u t) h v s"
  using assms each_next_cong [of "observers (hubs s h)" s v]
  by (simp add: hub_next_def unsub_encodes_def)

lemma demo_mux_text_facts:
  "cfg demo_mux_text = demo_cfg" "observer (sockets demo_mux_text 0) = 0"
  "next_hub demo_mux_text = 1"
  "\<not> isStopped (hubs demo_mux_text 0)" "observers (hubs demo_mux_text 0) = [0, 1, 2]"
  "consumers demo_mux_text 1 = \<lparr>received = [], hsub = \<lparr>s_isStopped = False, s_closed = False, finalizers = [RemoveFrom 0, Refcount]\<rparr>, chan = Some chan_x\<rparr>"
  "consumers demo_mux_text 2 = \<lparr>received = [], hsub = \<lparr>s_isStopped = False, s_closed = False, finalizers = [RemoveFrom 0, Refcount]\<rparr>, chan = Some chan_y\<rparr>"
  "chan (consumers demo_mux_text 0) = None"
  "destination demo_mux_text = Sender 0"
  by (simp_all add: demo_mux_text_def chan_x_def chan_y_def eval_defs)


subsection \<open>Registrations\<close>

lemma registered_ok_closed:
  assumes "registered_ok s c" and "s_closed (hsub (consumers s c))"
  shows "c \<notin> set (observers (hubs s h))"
proof -
  have "count_list (observers (hubs s h)) c \<le> 0"
    using assms unfolding registered_ok_def by (metis (full_types))
  then show ?thesis using count_list_pos [of "observers (hubs s h)" c] by simp
qed

lemma registered_ok_fresh:
  assumes "\<forall>h. c \<notin> set (observers (hubs s h))"
  shows "registered_ok s c"
  unfolding registered_ok_def using assms count_list_pos [of _ c] by (metis le0 not_gr_zero)

lemma registered_ok_unreg:
  assumes "registered_ok s c" and "finalizers (hsub (consumers s c)) = []"
  shows "c \<notin> set (observers (hubs s h))"
proof -
  have "count_list (observers (hubs s h)) c \<le> 0"
    using assms unfolding registered_ok_def by (metis (full_types) empty_iff list.set(1))
  then show ?thesis using count_list_pos [of "observers (hubs s h)" c] by simp
qed

lemma demo_open_fresh:
  "next_consumer demo_open = 1" "\<forall>h. 1 \<notin> set (observers (hubs demo_open h))"
  by (simp_all add: demo_open_def demo_connecting_def eval_defs)

section \<open>The claims\<close>

text \<open>
  C9. An open event that fires when \<^verbatim>\<open>this._socket\<close> has already been cleared closes the
  socket at once and resets the state; nothing of the open sequence happens: no hook
  is called, the destination is the fresh buffer of the reset and not a sender bound to
  the socket, and nothing is sent on any socket.
\<close>

theorem onopen_after_teardown:
  assumes "p_socket s = None"
  shows "\<exists>s'. onopen k s = Some s'
           \<and> s' = resetState (socket_close k Undefined Undefined s)
           \<and> closeCalls (sockets s' k) = closeCalls (sockets s k) @ [(Undefined, Undefined)]
           \<and> p_socket s' = None
           \<and> destination s' = Queue new_replay
           \<and> observers (hubs s' (p_output s')) = []
           \<and> hooks s' = hooks s
           \<and> (\<forall>j. sent (sockets s' j) = sent (sockets s j))"
  using assms
  by (simp add: onopen_def resetState_def socket_close_def sock_upd_def new_subject_def)

theorem onopen_after_teardown_witness:
  "p_socket demo_torn = None
   \<and> destination demo_torn = Queue (new_replay\<lparr>buffer := [Str ''late'']\<rparr>)
   \<and> (\<exists>s'. onopen 0 demo_torn = Some s'
          \<and> closeCalls (sockets s' 0) = closeCalls (sockets demo_torn 0) @ [(Undefined, Undefined)]
          \<and> destination s' = Queue new_replay
          \<and> hooks s' = hooks demo_torn
          \<and> sent (sockets s' 0) = sent (sockets demo_torn 0))"
  using onopen_after_teardown [OF demo_torn_socket, of 0] demo_torn_socket demo_torn_buffer
  by auto

text \<open>
  C10. A value that reaches the destination created at open while the socket's
  \<^verbatim>\<open>readyState\<close> is not Open is dropped: the state is unchanged, so nothing is sent,
  nothing is buffered and no consumer is notified.
\<close>

theorem next_on_closed_socket_discards:
  assumes "destination s = Sender k" and "readyState (sockets s k) \<noteq> 1"
  shows "sender_next k x s = Some s \<and> ws_next x s = Some s"
  using assms by (simp add: ws_next_def sender_next_def)

theorem next_on_closed_socket_discards_witness:
  "destination (transport_state 0 2 demo_open) = Sender 0
   \<and> readyState (sockets (transport_state 0 2 demo_open) 0) \<noteq> 1
   \<and> ws_next (Str ''x'') (transport_state 0 2 demo_open) = Some (transport_state 0 2 demo_open)"
proof -
  have d: "destination (transport_state 0 2 demo_open) = Sender 0"
    using demo_open_destination by (simp add: transport_state_def sock_upd_def)
  have r: "readyState (sockets (transport_state 0 2 demo_open) 0) \<noteq> 1"
    by (simp add: transport_state_def sock_upd_def)
  from next_on_closed_socket_discards [OF d r] d r show ?thesis by simp
qed

text \<open>
  C1, as stated, fails. A value passed to \<^verbatim>\<open>next\<close> while idle is lost when the last
  consumer unsubscribes before the socket opens (\<^verbatim>\<open>_resetState\<close> replaces the buffer): after
  the first open only the value passed afterwards is sent. And a buffered value that the
  serializer rejects ends the flush: the values after it are never sent.
\<close>

theorem buffered_values_dropped_counterexample:
  "(ws_next (Str ''a'') (init demo_cfg) \<bind> subscribe \<bind> unsubscribe 0 \<bind> subscribe
          \<bind> ws_next (Str ''b'') \<bind> transport 1 1 \<bind> onopen 1) = Some demo_reopened
   \<and> sent (sockets demo_reopened 0) = [] \<and> sent (sockets demo_reopened 1) = [''b'']
   \<and> destination demo_reopened = Sender 1
   \<and> (ws_next (Str ''a'') (init demo_cfg) \<bind> ws_next (Num 3) \<bind> ws_next (Str ''b'')
          \<bind> subscribe \<bind> transport 0 1 \<bind> onopen 0) = Some demo_rejected
   \<and> sent (sockets demo_rejected 0) = [''a'']
   \<and> destination demo_rejected = Queue new_replay"
  by (simp add: demo_reopened_def demo_rejected_def eval_defs)

text \<open>
  C1, amended. While the destination is the buffer, not stopped by a local error or
  completion, the values passed to \<^verbatim>\<open>next\<close> are appended to it unserialized, in order.
  When the open event then fires with \<^verbatim>\<open>this._socket\<close> set and the socket Open, and the
  serializer of that moment accepts every buffered value, exactly the buffered values
  are serialized and sent on that socket, once each and in order, nothing is sent on
  another socket, and the destination is the sender; from then on a value the
  serializer accepts is sent at once, without being buffered.
\<close>

theorem buffered_values_flushed_in_order:
  assumes "destination s = Queue q" and "\<not> r_isStopped q" and "\<not> r_hasError q"
    and "p_socket s = Some j" and "readyState (sockets s k) = 1"
    and "\<forall>v\<in>set (buffer q @ vs). \<exists>m. serializer (cfg s) v = Inr m"
  shows "\<exists>s1 s2. each ws_next vs s = Some s1
           \<and> s1 = s\<lparr>destination := Queue (q\<lparr>buffer := buffer q @ vs\<rparr>)\<rparr>
           \<and> onopen k s1 = Some s2
           \<and> sent (sockets s2 k)
               = sent (sockets s k) @ map (\<lambda>v. projr (serializer (cfg s) v)) (buffer q @ vs)
           \<and> (\<forall>i. i \<noteq> k \<longrightarrow> sent (sockets s2 i) = sent (sockets s i))
           \<and> destination s2 = Sender k
           \<and> (\<forall>v m. serializer (cfg s) v = Inr m \<longrightarrow>
                  ws_next v s2 = Some (socket_send k m s2)
                  \<and> destination (socket_send k m s2) = Sender k
                  \<and> sent (sockets (socket_send k m s2) k) = sent (sockets s2 k) @ [m])"
proof -
  define q' where "q' = q\<lparr>buffer := buffer q @ vs\<rparr>"
  define s1 where "s1 = s\<lparr>destination := Queue q'\<rparr>"
  define t where "t = sock_upd k (\<lambda>x. x\<lparr>d_isStopped := False, d_closed := False\<rparr>)
                     ((call_hook (openObserver (cfg s)) OpenHook s1)\<lparr>destination := Sender k\<rparr>)"
  define s2 where "s2 = sock_upd k (\<lambda>x. x\<lparr>sent := sent x @ map (\<lambda>v. projr (serializer (cfg t) v)) (buffer q')\<rparr>) t"
  have e: "each ws_next vs s = Some s1"
    unfolding s1_def q'_def using assms(1,2) by (rule each_ws_next_queue)
  have tf: "cfg t = cfg s" "\<not> d_isStopped (sockets t k)" "\<not> d_closed (sockets t k)"
    "readyState (sockets t k) = 1" "destination t = Sender k"
    "\<And>i. sent (sockets t i) = sent (sockets s i)"
    using assms(5) by (simp_all add: t_def s1_def call_hook_def)
  have r: "replay_to k (buffer q') t = Some s2"
    unfolding s2_def using assms(6) tf by (intro replay_to_all) (simp_all add: q'_def)
  have o: "onopen k s1 = Some s2"
    using assms(2,3,4) r [unfolded t_def s1_def]
    by (simp add: onopen_def Let_def queue_subscribe_def s1_def q'_def)
  have s2f: "cfg s2 = cfg s" "\<not> d_isStopped (sockets s2 k)" "readyState (sockets s2 k) = 1"
    "destination s2 = Sender k"
    "sent (sockets s2 k) = sent (sockets s k) @ map (\<lambda>v. projr (serializer (cfg s) v)) (buffer q @ vs)"
    "\<And>i. i \<noteq> k \<Longrightarrow> sent (sockets s2 i) = sent (sockets s i)"
    using tf by (simp_all add: s2_def q'_def)
  have imm: "ws_next v s2 = Some (socket_send k m s2)
             \<and> destination (socket_send k m s2) = Sender k
             \<and> sent (sockets (socket_send k m s2) k) = sent (sockets s2 k) @ [m]"
    if "serializer (cfg s) v = Inr m" for v m
    using that s2f(1-4) by (simp add: ws_next_def sender_next_def socket_send_def)
  show ?thesis
    using e o s2f(4,5,6) imm unfolding s1_def q'_def by blast
qed

theorem buffered_values_flushed_in_order_witness:
  "destination (transport_state 0 1 demo_connecting) = Queue new_replay
   \<and> \<not> r_isStopped new_replay \<and> \<not> r_hasError new_replay
   \<and> p_socket (transport_state 0 1 demo_connecting) = Some 0
   \<and> readyState (sockets (transport_state 0 1 demo_connecting) 0) = 1
   \<and> (\<exists>s1 s2. each ws_next [Str ''a'', Str ''b''] (transport_state 0 1 demo_connecting) = Some s1
          \<and> onopen 0 s1 = Some s2 \<and> sent (sockets s2 0) = [''a'', ''b'']
          \<and> destination s2 = Sender 0)"
proof -
  let ?s = "transport_state 0 1 demo_connecting"
  have h: "destination ?s = Queue new_replay" "\<not> r_isStopped new_replay" "\<not> r_hasError new_replay"
    "p_socket ?s = Some 0" "readyState (sockets ?s 0) = 1"
    "\<forall>v\<in>set (buffer new_replay @ [Str ''a'', Str ''b'']). \<exists>m. serializer (cfg ?s) v = Inr m"
    "sent (sockets ?s 0) = []" "cfg ?s = demo_cfg"
    using demo_connecting_facts
    by (simp_all add: transport_state_def new_replay_def demo_cfg_def demo_serializer_def)
  from buffered_values_flushed_in_order [OF h(1-6)] obtain s1 s2 where
    "each ws_next [Str ''a'', Str ''b''] ?s = Some s1" "onopen 0 s1 = Some s2"
    "sent (sockets s2 0) = sent (sockets ?s 0)
       @ map (\<lambda>v. projr (serializer (cfg ?s) v)) (buffer new_replay @ [Str ''a'', Str ''b''])"
    "destination s2 = Sender 0"
    by blast
  then show ?thesis
    using h by (auto simp: new_replay_def demo_cfg_def demo_serializer_def)
qed

text \<open>
  C6, as stated, fails in its second half. With a serializer that throws an error object
  carrying a code, one \<^verbatim>\<open>next\<close> on the open connection calls \<^verbatim>\<open>close\<close> on the socket with
  that code and clears \<^verbatim>\<open>this._socket\<close>: the encode failure alone closes the connection.
\<close>

theorem encode_failure_closes_counterexample:
  "(subscribe (init coded_cfg) \<bind> transport 0 1 \<bind> onopen 0) = Some coded_open
   \<and> readyState (sockets coded_open 0) = 1 \<and> closeCalls (sockets coded_open 0) = []
   \<and> p_socket coded_open = Some 0
   \<and> ws_next (Num 1) coded_open = Some coded_failed
   \<and> closeCalls (sockets coded_failed 0) = [(Num 25, Undefined)]
   \<and> readyState (sockets coded_failed 0) = 2
   \<and> p_socket coded_failed = None"
  by (simp add: coded_failed_def coded_open_def eval_defs)

text \<open>
  C6, amended. A serializer failure while the connection is open is caught and routed
  to the error path of the current destination instead of being thrown to the caller:
  the call returns, nothing is sent, the closing hook is called if configured, and the
  state is reset. The error path closes the socket with the thrown value's code and
  reason when that value carries a truthy code; otherwise it delivers the
  invalid-argument error to the consumers of the connection's output Subject.
\<close>

theorem encode_failure_routed_to_error_path:
  assumes "destination s = Sender k" and "\<not> d_isStopped (sockets s k)"
    and "readyState (sockets s k) = 1" and "serializer (cfg s) x = Inl e"
  shows "\<exists>s'. ws_next x s = Some s' \<and> ws_error e s = Some s'
           \<and> (\<forall>j. sent (sockets s' j) = sent (sockets s j))
           \<and> hooks s' = hooks s @ (if closingObserver (cfg s) then [ClosingHook] else [])
           \<and> p_socket s' = None \<and> destination s' = Queue new_replay
           \<and> (if truthy e \<and> truthy (get_prop e ''code'')
               then closeCalls (sockets s' k)
                      = closeCalls (sockets s k) @ [(get_prop e ''code'', get_prop e ''reason'')]
                    \<and> consumers s' = consumers s
               else (\<forall>c. consumers s' c
                      = (if \<not> isStopped (hubs s (observer (sockets s k)))
                            \<and> c \<in> set (observers (hubs s (observer (sockets s k))))
                         then stop_rec (Error (TypeError WEBSOCKETSUBJECT_INVALID_ERROR_OBJECT))
                                (consumers s c)
                         else consumers s c)))"
proof -
  have n: "ws_next x s = ws_error e s" "ws_error e s = sender_error k e s"
    using assms by (simp_all add: ws_next_def sender_next_def ws_error_def)
  show ?thesis
  proof (cases "truthy e \<and> truthy (get_prop e ''code'')")
    case True
    show ?thesis
      unfolding n sender_error_coded [OF assms(2) True] using True
      by (simp add: socket_close_def)
  next
    case False
    from sender_error_uncoded [OF assms(2,1) False] show ?thesis
      unfolding n using False by auto
  qed
qed

theorem encode_failure_routed_to_error_path_witness:
  "destination demo_open = Sender 0 \<and> \<not> d_isStopped (sockets demo_open 0)
   \<and> readyState (sockets demo_open 0) = 1 \<and> serializer (cfg demo_open) (Num 3) = Inl (Num 3)
   \<and> (\<exists>s'. ws_next (Num 3) demo_open = Some s' \<and> sent (sockets s' 0) = []
          \<and> hooks s' = [OpenHook, ClosingHook] \<and> p_socket s' = None
          \<and> received (consumers s' 0)
               = [Error (TypeError WEBSOCKETSUBJECT_INVALID_ERROR_OBJECT)])"
proof -
  have h: "serializer (cfg demo_open) (Num 3) = Inl (Num 3)"
    using demo_open_facts(3) by (simp add: demo_cfg_def demo_serializer_def)
  from encode_failure_routed_to_error_path [OF demo_open_facts(1,7,8) h]
  show ?thesis
    using demo_open_facts h
    by (auto simp: demo_cfg_def stop_rec_def unsub_sub_def Let_def)
qed

text \<open>
  C3. On an output Subject without consumers, let consumer A subscribe, then consumer B.
  Whatever the socket's \<^verbatim>\<open>readyState\<close> then is, unsubscribing A leaves the socket
  untouched and \<^verbatim>\<open>this._socket\<close> set, with B still attached. Unsubscribing B afterwards
  calls \<^verbatim>\<open>close\<close> on the socket exactly when its \<^verbatim>\<open>readyState\<close> is Connecting (0) or Open
  (1), and in every case resets the state: no socket, a fresh buffer, a fresh output
  Subject.
\<close>

theorem refcount_teardown:
  assumes "observers (hubs s (p_output s)) = []"
    and "\<not> isStopped (hubs s (p_output s))" and "\<not> hasError (hubs s (p_output s))"
    and "WebSocketCtor (cfg s) = None"
  shows "\<exists>sa sb k. subscribe s = Some sa \<and> subscribe sa = Some sb \<and> p_socket sb = Some k
           \<and> observers (hubs sb (p_output sb)) = [next_consumer s, Suc (next_consumer s)]
           \<and> (\<forall>r. \<exists>s1. unsubscribe (next_consumer s) (transport_state k r sb) = Some s1
                  \<and> p_socket s1 = Some k
                  \<and> sockets s1 = sockets (transport_state k r sb)
                  \<and> destination s1 = destination sb
                  \<and> observers (hubs s1 (p_output s1)) = [Suc (next_consumer s)]
                  \<and> (\<forall>r'. \<exists>s2. unsubscribe (Suc (next_consumer s)) (transport_state k r' s1) = Some s2
                         \<and> closeCalls (sockets s2 k) =
                             closeCalls (sockets sb k) @ (if r' = 0 \<or> r' = 1 then [(Undefined, Undefined)] else [])
                         \<and> p_socket s2 = None
                         \<and> destination s2 = Queue new_replay
                         \<and> observers (hubs s2 (p_output s2)) = []))"
  using assms
  by (cases "p_socket s") (auto simp: model_defs)

theorem refcount_teardown_witness:
  "observers (hubs (init demo_cfg) (p_output (init demo_cfg))) = []
   \<and> \<not> isStopped (hubs (init demo_cfg) (p_output (init demo_cfg)))
   \<and> \<not> hasError (hubs (init demo_cfg) (p_output (init demo_cfg)))
   \<and> WebSocketCtor (cfg (init demo_cfg)) = None
   \<and> (\<exists>sa sb k. subscribe (init demo_cfg) = Some sa \<and> subscribe sa = Some sb \<and> p_socket sb = Some k
           \<and> observers (hubs sb (p_output sb)) = [next_consumer (init demo_cfg), Suc (next_consumer (init demo_cfg))]
           \<and> (\<forall>r. \<exists>s1. unsubscribe (next_consumer (init demo_cfg)) (transport_state k r sb) = Some s1
                  \<and> p_socket s1 = Some k
                  \<and> sockets s1 = sockets (transport_state k r sb)
                  \<and> destination s1 = destination sb
                  \<and> observers (hubs s1 (p_output s1)) = [Suc (next_consumer (init demo_cfg))]
                  \<and> (\<forall>r'. \<exists>s2. unsubscribe (Suc (next_consumer (init demo_cfg))) (transport_state k r' s1) = Some s2
                         \<and> closeCalls (sockets s2 k) =
                             closeCalls (sockets sb k) @ (if r' = 0 \<or> r' = 1 then [(Undefined, Undefined)] else [])
                         \<and> p_socket s2 = None
                         \<and> destination s2 = Queue new_replay
                         \<and> observers (hubs s2 (p_output s2)) = [])))"
proof -
  have h: "observers (hubs (init demo_cfg) (p_output (init demo_cfg))) = []"
    "\<not> isStopped (hubs (init demo_cfg) (p_output (init demo_cfg)))"
    "\<not> hasError (hubs (init demo_cfg) (p_output (init demo_cfg)))"
    "WebSocketCtor (cfg (init demo_cfg)) = None"
    by (simp_all add: init_def demo_cfg_def new_subject_def)
  from refcount_teardown [OF h] h show ?thesis by (intro conjI)
qed

text \<open>
  C7. An error that reaches the error path of the destination while the connection is
  open (the destination is the sender, not yet stopped): the closing hook is called, if
  configured, before anything else: in \<open>events\<close> its call comes first, and the calls of
  \<^verbatim>\<open>close\<close> and the notifications that the handler makes are the entries \<open>es\<close> after it. If
  the error is truthy with a truthy \<^verbatim>\<open>code\<close>, \<open>es\<close> is the one call of \<^verbatim>\<open>close\<close> on the socket
  with that code and the error's \<^verbatim>\<open>reason\<close>, and no consumer is notified. Otherwise every
  close call that is added has no arguments, every notification is the invalid-argument
  \<^verbatim>\<open>TypeError\<close>, and that error is delivered to every consumer that is attached to the
  Subject the socket captured and still listening; that Subject is the current output
  Subject unless \<^verbatim>\<open>_resetState\<close> has replaced it since the socket was constructed.
\<close>

theorem local_error_path:
  assumes "destination s = Sender k" and "\<not> d_isStopped (sockets s k)"
  shows "\<exists>s' es. ws_error err s = Some s'
           \<and> events s' = events s @ (if closingObserver (cfg s) then [Hooked ClosingHook] else []) @ es
           \<and> (\<forall>j. closeCalls (sockets s' j) = closeCalls (sockets s j) @ closes_of j es)
           \<and> (\<forall>c. received (consumers s' c) = received (consumers s c) @ notes_of c es)
           \<and> hooks s' = hooks s @ (if closingObserver (cfg s) then [ClosingHook] else [])
           \<and> (if truthy err \<and> truthy (get_prop err ''code'')
               then es = [Closed k (get_prop err ''code'') (get_prop err ''reason'')]
                    \<and> s' = sock_upd k (\<lambda>x. x\<lparr>d_closed := True\<rparr>)
                           (resetState
                             (socket_close k (get_prop err ''code'') (get_prop err ''reason'')
                               (call_hook (closingObserver (cfg s)) ClosingHook
                                 (sock_upd k (\<lambda>x. x\<lparr>d_isStopped := True\<rparr>) s))))
                    \<and> (\<forall>j. closeCalls (sockets s' j)
                           = closeCalls (sockets s j)
                             @ (if j = k then [(get_prop err ''code'', get_prop err ''reason'')]
                                else []))
                    \<and> consumers s' = consumers s
               else (\<forall>e\<in>set es. (\<exists>j. e = Closed j Undefined Undefined)
                       \<or> (\<exists>c. e = Notified c (Error (TypeError WEBSOCKETSUBJECT_INVALID_ERROR_OBJECT))))
                    \<and> ws_error err s
                      = hub_error send_inert (observer (sockets s k))
                          (TypeError WEBSOCKETSUBJECT_INVALID_ERROR_OBJECT)
                          (call_hook (closingObserver (cfg s)) ClosingHook
                            (sock_upd k (\<lambda>x. x\<lparr>d_isStopped := True\<rparr>) s))
                        \<bind> (\<lambda>t. Some (sock_upd k (\<lambda>x. x\<lparr>d_closed := True\<rparr>) (resetState t)))
                    \<and> (\<forall>j. set (closeCalls (sockets s' j))
                           \<subseteq> insert (Undefined, Undefined) (set (closeCalls (sockets s j))))
                    \<and> (\<forall>c. consumers s' c
                           = (if \<not> isStopped (hubs s (observer (sockets s k)))
                                 \<and> c \<in> set (observers (hubs s (observer (sockets s k))))
                              then stop_rec (Error (TypeError WEBSOCKETSUBJECT_INVALID_ERROR_OBJECT))
                                     (consumers s c)
                              else consumers s c))
                    \<and> (\<forall>c. \<not> isStopped (hubs s (observer (sockets s k)))
                           \<and> c \<in> set (observers (hubs s (observer (sockets s k))))
                           \<and> live (consumers s c)
                           \<longrightarrow> received (consumers s' c)
                               = received (consumers s c)
                                 @ [Error (TypeError WEBSOCKETSUBJECT_INVALID_ERROR_OBJECT)])
                    \<and> (observer (sockets s k) = p_output s
                         \<longrightarrow> (\<forall>c. \<not> isStopped (hubs s (p_output s))
                                \<and> c \<in> set (observers (hubs s (p_output s)))
                                \<and> live (consumers s c)
                                \<longrightarrow> received (consumers s' c)
                                    = received (consumers s c)
                                      @ [Error (TypeError WEBSOCKETSUBJECT_INVALID_ERROR_OBJECT)])))"
proof -
  have n: "ws_error err s = sender_error k err s"
    using assms by (simp add: ws_error_def)
  show ?thesis
  proof (cases "truthy err \<and> truthy (get_prop err ''code'')")
    case True
    define s' where "s' = sock_upd k (\<lambda>x. x\<lparr>d_closed := True\<rparr>)
                           (resetState
                             (socket_close k (get_prop err ''code'') (get_prop err ''reason'')
                               (call_hook (closingObserver (cfg s)) ClosingHook
                                 (sock_upd k (\<lambda>x. x\<lparr>d_isStopped := True\<rparr>) s))))"
    have e: "ws_error err s = Some s'"
      unfolding n sender_error_coded [OF assms(2) True] s'_def ..
    have f: "events s' = events s @ (if closingObserver (cfg s) then [Hooked ClosingHook] else [])
                  @ [Closed k (get_prop err ''code'') (get_prop err ''reason'')]"
      "\<forall>j. closeCalls (sockets s' j)
           = closeCalls (sockets s j)
             @ (if j = k then [(get_prop err ''code'', get_prop err ''reason'')] else [])"
      "consumers s' = consumers s"
      "hooks s' = hooks s @ (if closingObserver (cfg s) then [ClosingHook] else [])"
      by (simp_all add: s'_def)
    show ?thesis
      unfolding if_P [OF True] using e f s'_def
      by (intro exI [of _ s'] exI [of _ "[Closed k (get_prop err ''code'') (get_prop err ''reason'')]"])
        simp
  next
    case False
    have d: "sender_error k err s
             = hub_error send_inert (observer (sockets s k))
                          (TypeError WEBSOCKETSUBJECT_INVALID_ERROR_OBJECT)
                          (call_hook (closingObserver (cfg s)) ClosingHook
                            (sock_upd k (\<lambda>x. x\<lparr>d_isStopped := True\<rparr>) s))
                        \<bind> (\<lambda>t. Some (sock_upd k (\<lambda>x. x\<lparr>d_closed := True\<rparr>) (resetState t)))"
      using assms(2) False by (auto simp: sender_error_def Let_def)
    from sender_error_uncoded [OF assms(2,1) False] obtain s' where
      s': "sender_error k err s = Some s'"
        "hooks s' = hooks s @ (if closingObserver (cfg s) then [ClosingHook] else [])"
        "\<forall>j. set (closeCalls (sockets s' j))
              \<subseteq> insert (Undefined, Undefined) (set (closeCalls (sockets s j)))"
        "\<forall>c. consumers s' c
           = (if \<not> isStopped (hubs s (observer (sockets s k)))
                 \<and> c \<in> set (observers (hubs s (observer (sockets s k))))
              then stop_rec (Error (TypeError WEBSOCKETSUBJECT_INVALID_ERROR_OBJECT)) (consumers s c)
              else consumers s c)"
      by blast
    from sender_error_events [OF assms(2) False s'(1)] obtain es where
      es: "events s' = events s @ (if closingObserver (cfg s) then [Hooked ClosingHook] else []) @ es"
        "\<forall>e\<in>set es. (\<exists>j. e = Closed j Undefined Undefined)
                  \<or> (\<exists>c. e = Notified c (Error (TypeError WEBSOCKETSUBJECT_INVALID_ERROR_OBJECT)))"
        "\<forall>j. closeCalls (sockets s' j) = closeCalls (sockets s j) @ closes_of j es"
        "\<forall>c. received (consumers s' c) = received (consumers s c) @ notes_of c es"
      by blast
    have rc: "received (consumers s' c)
            = received (consumers s c) @ [Error (TypeError WEBSOCKETSUBJECT_INVALID_ERROR_OBJECT)]"
      if "\<not> isStopped (hubs s (observer (sockets s k)))"
        "c \<in> set (observers (hubs s (observer (sockets s k))))" "live (consumers s c)" for c
      using s'(4) that by (simp add: received_stop_rec)
    have cur: "observer (sockets s k) = p_output s
                         \<longrightarrow> (\<forall>c. \<not> isStopped (hubs s (p_output s))
                                \<and> c \<in> set (observers (hubs s (p_output s)))
                                \<and> live (consumers s c)
                                \<longrightarrow> received (consumers s' c)
                                    = received (consumers s c)
                                      @ [Error (TypeError WEBSOCKETSUBJECT_INVALID_ERROR_OBJECT)])"
      using rc by auto
    show ?thesis
      unfolding n if_not_P [OF False] using s' d es rc cur
      by (intro exI [of _ s'] exI [of _ es]) simp
  qed
qed

theorem local_error_path_witness:
  "destination demo_open = Sender 0 \<and> \<not> d_isStopped (sockets demo_open 0)
   \<and> (\<exists>s' es. ws_error (Str ''boom'') demo_open = Some s'
          \<and> events s' = [Hooked OpenHook, Hooked ClosingHook] @ es
          \<and> notes_of 0 es = [Error (TypeError WEBSOCKETSUBJECT_INVALID_ERROR_OBJECT)]
          \<and> hooks s' = [OpenHook, ClosingHook]
          \<and> received (consumers s' 0) = [Error (TypeError WEBSOCKETSUBJECT_INVALID_ERROR_OBJECT)])
   \<and> (\<exists>s'. ws_error (Obj [(''code'', Num 4000), (''reason'', Str ''bye'')]) demo_open = Some s'
          \<and> events s' = [Hooked OpenHook, Hooked ClosingHook, Closed 0 (Num 4000) (Str ''bye'')]
          \<and> hooks s' = [OpenHook, ClosingHook]
          \<and> closeCalls (sockets s' 0) = [(Num 4000, Str ''bye'')]
          \<and> received (consumers s' 0) = [])"
proof -
  let ?e = "TypeError WEBSOCKETSUBJECT_INVALID_ERROR_OBJECT"
  let ?o = "Obj [(''code'', Num 4000), (''reason'', Str ''bye'')]"
  have l: "live (consumers demo_open 0)"
    using demo_open_facts by (simp add: live_def)
  have u: "\<not> (truthy (Str ''boom'') \<and> truthy (get_prop (Str ''boom'') ''code''))" by simp
  have c: "truthy ?o \<and> truthy (get_prop ?o ''code'')" by simp
  from local_error_path [OF demo_open_facts(1,7), of "Str ''boom''"]
  obtain s1 es1 where s1: "ws_error (Str ''boom'') demo_open = Some s1"
    "events s1 = events demo_open
                 @ (if closingObserver (cfg demo_open) then [Hooked ClosingHook] else []) @ es1"
    "\<forall>c. received (consumers s1 c) = received (consumers demo_open c) @ notes_of c es1"
    "hooks s1 = hooks demo_open @ (if closingObserver (cfg demo_open) then [ClosingHook] else [])"
    "\<forall>c. \<not> isStopped (hubs demo_open (observer (sockets demo_open 0)))
           \<and> c \<in> set (observers (hubs demo_open (observer (sockets demo_open 0))))
           \<and> live (consumers demo_open c)
           \<longrightarrow> received (consumers s1 c) = received (consumers demo_open c) @ [Error ?e]"
    unfolding if_not_P [OF u] by blast
  from local_error_path [OF demo_open_facts(1,7), of ?o]
  obtain s2 es2 where s2: "ws_error ?o demo_open = Some s2"
    "events s2 = events demo_open
                 @ (if closingObserver (cfg demo_open) then [Hooked ClosingHook] else []) @ es2"
    "hooks s2 = hooks demo_open @ (if closingObserver (cfg demo_open) then [ClosingHook] else [])"
    "es2 = [Closed 0 (get_prop ?o ''code'') (get_prop ?o ''reason'')]"
    "\<forall>j. closeCalls (sockets s2 j)
           = closeCalls (sockets demo_open j)
             @ (if j = 0 then [(get_prop ?o ''code'', get_prop ?o ''reason'')] else [])"
    "consumers s2 = consumers demo_open"
    unfolding if_P [OF c] by blast
  have r1: "received (consumers s1 0) = [Error ?e]"
    using s1(5) l demo_open_facts by simp
  have n1: "notes_of 0 es1 = [Error ?e]"
    using s1(3) r1 demo_open_facts by simp
  have e1: "events s1 = [Hooked OpenHook, Hooked ClosingHook] @ es1"
    using s1(2) demo_open_events demo_open_facts by (simp add: demo_cfg_def)
  have e2: "events s2 = [Hooked OpenHook, Hooked ClosingHook, Closed 0 (Num 4000) (Str ''bye'')]"
    using s2(2,4) demo_open_events demo_open_facts by (simp add: demo_cfg_def)
  have h: "hooks s1 = [OpenHook, ClosingHook]" "hooks s2 = [OpenHook, ClosingHook]"
    using s1(4) s2(3) demo_open_facts by (simp_all add: demo_cfg_def)
  have c2: "closeCalls (sockets s2 0) = [(Num 4000, Str ''bye'')]"
    using s2(5) demo_open_facts by simp
  have r2: "received (consumers s2 0) = []"
    using s2(6) demo_open_facts by simp
  have a: "\<exists>s' es. ws_error (Str ''boom'') demo_open = Some s'
          \<and> events s' = [Hooked OpenHook, Hooked ClosingHook] @ es
          \<and> notes_of 0 es = [Error ?e]
          \<and> hooks s' = [OpenHook, ClosingHook]
          \<and> received (consumers s' 0) = [Error ?e]"
    using s1(1) e1 n1 h(1) r1 by blast
  have b: "\<exists>s'. ws_error ?o demo_open = Some s'
          \<and> events s' = [Hooked OpenHook, Hooked ClosingHook, Closed 0 (Num 4000) (Str ''bye'')]
          \<and> hooks s' = [OpenHook, ClosingHook]
          \<and> closeCalls (sockets s' 0) = [(Num 4000, Str ''bye'')]
          \<and> received (consumers s' 0) = []"
    using s2(1) e2 h(2) c2 r2 by blast
  show ?thesis using a b demo_open_facts(1,7) by simp
qed

text \<open>
  C2. A close event of socket \<open>k\<close>, whose handlers captured an output Subject that has
  been allocated. If \<open>k\<close> is still \<^verbatim>\<open>this._socket\<close>, the state is reset: no socket, the
  destination a buffer. The close hook is called with the event if configured. Every
  consumer that is attached to the captured Subject and still listening receives
  completion when the event's \<^verbatim>\<open>wasClean\<close> is truthy, and the event as an error
  otherwise. (When \<open>k\<close> is no longer \<^verbatim>\<open>this._socket\<close>, the unsubscribe messages that
  channels send on being notified must not fail to encode on a newer open connection.)
\<close>

theorem transport_close:
  assumes "observer (sockets s k) < next_hub s"
    and "p_socket s = Some k \<or> calm s"
  shows "\<exists>s'. onclose k e s = Some s'
           \<and> (p_socket s = Some k \<longrightarrow> p_socket s' = None \<and> (\<exists>q. destination s' = Queue q))
           \<and> hooks s' = hooks s @ (if closeObserver (cfg s) then [CloseHook e] else [])
           \<and> (\<forall>c. consumers s' c
                  = (if \<not> isStopped (hubs s (observer (sockets s k)))
                        \<and> c \<in> set (observers (hubs s (observer (sockets s k))))
                     then stop_rec (if truthy (get_prop e ''wasClean'') then Complete else Error e)
                            (consumers s c)
                     else consumers s c))
           \<and> (\<forall>c. \<not> isStopped (hubs s (observer (sockets s k)))
                  \<and> c \<in> set (observers (hubs s (observer (sockets s k))))
                  \<and> live (consumers s c)
                  \<longrightarrow> received (consumers s' c)
                      = received (consumers s c)
                        @ [if truthy (get_prop e ''wasClean'') then Complete else Error e])"
proof -
  define h where "h = observer (sockets s k)"
  define s1 where "s1 = (if p_socket s = Some k then resetState s else s)"
  define s2 where "s2 = call_hook (closeObserver (cfg s1)) (CloseHook e) s1"
  define n where "n = (if truthy (get_prop e ''wasClean'') then Complete else Error e)"
  define I where "I = (\<lambda>t. calm t \<and> (p_socket s = Some k \<longrightarrow> p_socket t = None \<and> (\<exists>q. destination t = Queue q)))"
  have hl: "h < next_hub s" using assms(1) by (simp add: h_def)
  have f2: "hubs s2 h = hubs s h" "consumers s2 = consumers s" "cfg s2 = cfg s"
    "hooks s2 = hooks s @ (if closeObserver (cfg s) then [CloseHook e] else [])"
    using hl by (auto simp: s2_def s1_def)
  have c2: "calm s2" using assms(2) by (auto simp: s2_def s1_def calm_def)
  have st: "stable I"
  proof (cases "p_socket s = Some k")
    case True
    have "stable (\<lambda>t. p_socket t = None)"
      by (auto simp: stable_def pframe_def frame_def)
    then have "stable (\<lambda>t. (calm t \<and> (\<exists>q. destination t = Queue q)) \<and> p_socket t = None)"
      using stable_conj [OF stable_queue_calm] by blast
    moreover have "I = (\<lambda>t. (calm t \<and> (\<exists>q. destination t = Queue q)) \<and> p_socket t = None)"
      using True by (auto simp: I_def)
    ultimately show ?thesis by simp
  next
    case False
    then have "I = calm" by (auto simp: I_def)
    then show ?thesis using stable_calm by simp
  qed
  have q: "quiet_send I ws_next"
  proof (cases "p_socket s = Some k")
    case True
    then have "I = (\<lambda>t. (calm t \<and> (\<exists>q. destination t = Queue q)) \<and> p_socket t = None)"
      by (auto simp: I_def)
    moreover have "quiet_send (\<lambda>t. (calm t \<and> (\<exists>q. destination t = Queue q)) \<and> p_socket t = None) ws_next"
      using quiet_send_queue unfolding quiet_send_def by metis
    ultimately show ?thesis by simp
  next
    case False
    then have "I = calm" by (auto simp: I_def)
    then show ?thesis using quiet_send_calm by simp
  qed
  have i2: "I s2" using c2 by (auto simp: I_def s2_def s1_def)
  have "\<exists>s'. onclose k e s = Some s' \<and> I s' \<and> hooks s' = hooks s2
          \<and> (\<forall>c. consumers s' c
                 = (if \<not> isStopped (hubs s2 h) \<and> c \<in> set (observers (hubs s2 h))
                    then stop_rec n (consumers s2 c) else consumers s2 c))"
  proof (cases "truthy (get_prop e ''wasClean'')")
    case True
    from hub_complete_quiet [OF q st i2, of h] obtain s' where
      "hub_complete ws_next h s2 = Some s'" "I s'" "hooks s' = hooks s2"
      "\<forall>c. consumers s' c
           = (if \<not> isStopped (hubs s2 h) \<and> c \<in> set (observers (hubs s2 h))
              then stop_rec Complete (consumers s2 c) else consumers s2 c)"
      by blast
    then show ?thesis
      using True by (simp add: onclose_def Let_def s2_def s1_def h_def n_def)
  next
    case False
    from hub_error_quiet [OF q st i2, of h e] obtain s' where
      "hub_error ws_next h e s2 = Some s'" "I s'" "hooks s' = hooks s2"
      "\<forall>c. consumers s' c
           = (if \<not> isStopped (hubs s2 h) \<and> c \<in> set (observers (hubs s2 h))
              then stop_rec (Error e) (consumers s2 c) else consumers s2 c)"
      by blast
    then show ?thesis
      using False by (simp add: onclose_def Let_def s2_def s1_def h_def n_def)
  qed
  then obtain s' where s': "onclose k e s = Some s'" "I s'" "hooks s' = hooks s2"
    "\<forall>c. consumers s' c
           = (if \<not> isStopped (hubs s h) \<and> c \<in> set (observers (hubs s h))
              then stop_rec n (consumers s c) else consumers s c)"
    using f2 by auto
  have "received (consumers s' c) = received (consumers s c) @ [n]"
    if "\<not> isStopped (hubs s h)" "c \<in> set (observers (hubs s h))" "live (consumers s c)" for c
    using s'(4) that by (simp add: received_stop_rec)
  then show ?thesis
    using s' f2(4) unfolding I_def h_def n_def by (intro exI [of _ s']) simp
qed

theorem transport_close_witness:
  "observer (sockets demo_open 0) < next_hub demo_open \<and> p_socket demo_open = Some 0
   \<and> (\<exists>s'. onclose 0 clean_close demo_open = Some s' \<and> p_socket s' = None
          \<and> hooks s' = [OpenHook, CloseHook clean_close]
          \<and> received (consumers s' 0) = [Complete])
   \<and> (\<exists>s'. onclose 0 unclean_close demo_open = Some s' \<and> p_socket s' = None
          \<and> hooks s' = [OpenHook, CloseHook unclean_close]
          \<and> received (consumers s' 0) = [Error unclean_close])"
proof -
  have h: "observer (sockets demo_open 0) < next_hub demo_open"
    "p_socket demo_open = Some 0 \<or> calm demo_open"
    using demo_open_facts by simp_all
  have l: "live (consumers demo_open 0)" "closeObserver (cfg demo_open)"
    "0 \<in> set (observers (hubs demo_open (observer (sockets demo_open 0))))"
    "\<not> isStopped (hubs demo_open (observer (sockets demo_open 0)))"
    using demo_open_facts by (simp_all add: live_def demo_cfg_def)
  from transport_close [OF h, of clean_close] obtain s1 where
    s1: "onclose 0 clean_close demo_open = Some s1"
      "p_socket demo_open = Some 0 \<longrightarrow> p_socket s1 = None \<and> (\<exists>q. destination s1 = Queue q)"
      "hooks s1 = hooks demo_open @ (if closeObserver (cfg demo_open) then [CloseHook clean_close] else [])"
      "\<forall>c. \<not> isStopped (hubs demo_open (observer (sockets demo_open 0)))
                  \<and> c \<in> set (observers (hubs demo_open (observer (sockets demo_open 0))))
                  \<and> live (consumers demo_open c)
                  \<longrightarrow> received (consumers s1 c)
                      = received (consumers demo_open c)
                        @ [if truthy (get_prop clean_close ''wasClean'') then Complete else Error clean_close]"
    by blast
  from transport_close [OF h, of unclean_close] obtain s2 where
    s2: "onclose 0 unclean_close demo_open = Some s2"
      "p_socket demo_open = Some 0 \<longrightarrow> p_socket s2 = None \<and> (\<exists>q. destination s2 = Queue q)"
      "hooks s2 = hooks demo_open @ (if closeObserver (cfg demo_open) then [CloseHook unclean_close] else [])"
      "\<forall>c. \<not> isStopped (hubs demo_open (observer (sockets demo_open 0)))
                  \<and> c \<in> set (observers (hubs demo_open (observer (sockets demo_open 0))))
                  \<and> live (consumers demo_open c)
                  \<longrightarrow> received (consumers s2 c)
                      = received (consumers demo_open c)
                        @ [if truthy (get_prop unclean_close ''wasClean'') then Complete else Error unclean_close]"
    by blast
  have "received (consumers s1 0) = [Complete]"
    using s1(4) l demo_open_facts by (simp add: clean_close_def)
  moreover have "received (consumers s2 0) = [Error unclean_close]"
    using s2(4) l demo_open_facts by (simp add: unclean_close_def)
  moreover have "hooks s1 = [OpenHook, CloseHook clean_close]"
    "hooks s2 = [OpenHook, CloseHook unclean_close]"
    using s1(3) s2(3) l demo_open_facts by simp_all
  ultimately show ?thesis
    using s1(1,2) s2(1,2) h(1) demo_open_facts(2) by simp
qed

text \<open>
  C8, as stated, fails in its last part when the unsubscribe message of the throwing
  channel cannot be sent. On an open connection whose serializer accepts texts only,
  channel 1 has the number 3 as unsubscribe message. Its filter throws on the text x and
  the filter of channel 2 rejects that text. Channel 1 receives the exception of its
  filter; its teardown passes 3 to \<^verbatim>\<open>next\<close>, the serializer throws, the catch of line 305
  passes that to the error handler of the destination, and the handler errors the output
  Subject: channel 2 receives the invalid-argument error, and the later text y, which its
  filter accepts, changes nothing.
\<close>

theorem filter_throw_reaches_others_counterexample:
  "(subscribe (init demo_cfg) \<bind> transport 0 1 \<bind> onopen 0
          \<bind> multiplex (Inr (Str ''subX'')) (Inr (Num 3)) filter_x
          \<bind> multiplex (Inr (Str ''subY'')) (Inr (Str ''unsubY'')) filter_y) = Some demo_mux_num
   \<and> observer (sockets demo_mux_num 0) = 0 \<and> observers (hubs demo_mux_num 0) = [0, 1, 2]
   \<and> chan (consumers demo_mux_num 1) = Some chan_x_num
   \<and> chan (consumers demo_mux_num 2) = Some chan_y
   \<and> received (consumers demo_mux_num 1) = [] \<and> received (consumers demo_mux_num 2) = []
   \<and> filter_x (Str ''x'') = Inl (Str ''boom'') \<and> filter_y (Str ''x'') = Inr False
   \<and> filter_y (Str ''y'') = Inr True
   \<and> serializer (cfg demo_mux_num) (Num 3) = Inl (Num 3)
   \<and> onmessage 0 ''x'' demo_mux_num = Some demo_mux_num_x
   \<and> received (consumers demo_mux_num_x 1) = [Error (Str ''boom'')]
   \<and> received (consumers demo_mux_num_x 2)
       = [Error (TypeError WEBSOCKETSUBJECT_INVALID_ERROR_OBJECT)]
   \<and> onmessage 0 ''y'' demo_mux_num_x = Some demo_mux_num_x"
  using demo_mux_num_eq demo_mux_num_facts demo_mux_num_x_facts
  by (simp add: filter_x_def filter_y_def)

text \<open>
  C8, amended. An inbound value is forwarded only through the filters: whatever else
  happens, a consumer receives a value only if it is the inbound value and its filter,
  if it has one, returns true for it; so two channels with disjoint predicates never
  receive each other's values. And if every channel of the connection whose filter
  throws on the inbound value has an unsubscribe message that the serializer accepts,
  each listening channel receives exactly what its own filter yields: the value if the
  filter returns true, nothing if it returns false, the filter's exception, as an error,
  if it throws. So the error of channel \<open>x\<close> reaches no other channel, and a channel \<open>y\<close>
  whose filter did not throw is still listening on the same Subject afterwards, with the
  hypotheses in force again, so that the same holds for each later value.
\<close>

theorem filter_isolation:
  assumes "deserializer (cfg s) d = Inr v"
  shows "\<exists>s'. onmessage k d s = Some s'
           \<and> (\<forall>c. \<exists>ns. received (consumers s' c) = received (consumers s c) @ ns
                  \<and> (\<forall>w. Next w \<in> set ns \<longrightarrow> w = v \<and> passes (consumers s c) v))
           \<and> (observer (sockets s k) = h \<and> h < next_hub s \<and> \<not> isStopped (hubs s h)
               \<and> distinct (observers (hubs s h)) \<and> unsub_encodes s h v
               \<and> on_channel s h x chx \<and> on_channel s h y chy
               \<longrightarrow> received (consumers s' x)
                     = received (consumers s x) @ outcome v (messageFilter chx v)
                   \<and> received (consumers s' y)
                     = received (consumers s y) @ outcome v (messageFilter chy v)
                   \<and> (\<forall>w. unsub_encodes s h w \<longrightarrow> unsub_encodes s' h w)
                   \<and> (\<forall>b. messageFilter chy v = Inr b \<longrightarrow>
                          on_channel s' h y chy \<and> deserializer (cfg s') = deserializer (cfg s)
                          \<and> observer (sockets s' k) = h \<and> h < next_hub s'
                          \<and> \<not> isStopped (hubs s' h) \<and> distinct (observers (hubs s' h))))"
proof -
  define P where "P = (\<lambda>e. \<forall>c w. e = Notified c (Next w) \<longrightarrow> w = v \<and> passes (consumers s c) v)"
  let ?send = "\<lambda>u t. if isl (serializer (cfg t) u) then Some t else ws_next u t"
  from hub_next_forwards [of "observer (sockets s k)" v s] obtain s' where
    r: "hub_next ws_next (observer (sockets s k)) v s = Some s'" and g: "grows P s s'"
    unfolding P_def by blast
  have m: "onmessage k d s = Some s'" using assms r by (simp add: onmessage_def)
  from g obtain es where
    es: "\<forall>e\<in>set es. P e"
      "\<forall>c. received (consumers s' c) = received (consumers s c) @ notes_of c es"
    by (rule growsD)
  have fwd: "\<exists>ns. received (consumers s' c) = received (consumers s c) @ ns
                  \<and> (\<forall>w. Next w \<in> set ns \<longrightarrow> w = v \<and> passes (consumers s c) v)" for c
  proof -
    have "\<forall>w. Next w \<in> set (notes_of c es) \<longrightarrow> w = v \<and> passes (consumers s c) v"
      using es(1) unfolding notes_of_mem P_def by blast
    then show ?thesis using es(2) by blast
  qed
  have iso: "received (consumers s' x)
                     = received (consumers s x) @ outcome v (messageFilter chx v)
                   \<and> received (consumers s' y)
                     = received (consumers s y) @ outcome v (messageFilter chy v)
                   \<and> (\<forall>w. unsub_encodes s h w \<longrightarrow> unsub_encodes s' h w)
                   \<and> (\<forall>b. messageFilter chy v = Inr b \<longrightarrow>
                          on_channel s' h y chy \<and> deserializer (cfg s') = deserializer (cfg s)
                          \<and> observer (sockets s' k) = h \<and> h < next_hub s'
                          \<and> \<not> isStopped (hubs s' h) \<and> distinct (observers (hubs s' h)))"
    if a: "observer (sockets s k) = h" "h < next_hub s" "\<not> isStopped (hubs s h)"
      "distinct (observers (hubs s h))" "unsub_encodes s h v"
      "on_channel s h x chx" "on_channel s h y chy"
  proof -
    have r': "hub_next ?send h v s = Some s'"
      using r a(1) hub_next_cong [OF a(5)] by simp
    from hub_next_quiet [OF quiet_send_encoding stable_True TrueI a(4), of v] obtain t where
      t: "hub_next ?send h v s = Some t" "frame s t"
        "\<forall>c. consumers t c
           = (if \<not> isStopped (hubs s h) \<and> c \<in> set (observers (hubs s h))
              then next_rec v (consumers s c) else consumers s c)"
      by blast
    have ts: "t = s'" using t(1) r' by simp
    have s': "frame s s'"
      "\<forall>c. consumers s' c
           = (if \<not> isStopped (hubs s h) \<and> c \<in> set (observers (hubs s h))
              then next_rec v (consumers s c) else consumers s c)"
      using t(2,3) ts by simp_all
    have cx: "consumers s' x = next_rec v (consumers s x)"
      and cy: "consumers s' y = next_rec v (consumers s y)"
      using s'(2) a(3,6,7) by (simp_all add: on_channel_def)
    have rx: "received (consumers s' x) = received (consumers s x) @ outcome v (messageFilter chx v)"
      unfolding cx using a(6) by (intro received_next_rec_channel) (simp_all add: on_channel_def)
    have ry: "received (consumers s' y) = received (consumers s y) @ outcome v (messageFilter chy v)"
      unfolding cy using a(7) by (intro received_next_rec_channel) (simp_all add: on_channel_def)
    have ue: "\<forall>w. unsub_encodes s h w \<longrightarrow> unsub_encodes s' h w"
      using unsub_encodes_grows [OF g] by blast
    have keep: "on_channel s' h y chy \<and> deserializer (cfg s') = deserializer (cfg s)
                  \<and> observer (sockets s' k) = h \<and> h < next_hub s'
                  \<and> \<not> isStopped (hubs s' h) \<and> distinct (observers (hubs s' h))"
      if b: "messageFilter chy v = Inr b" for b
    proof -
      have chy: "chan (consumers s y) = Some chy" using a(7) by (simp add: on_channel_def)
      have c': "chan (consumers s' y) = Some chy" "hsub (consumers s' y) = hsub (consumers s y)"
        unfolding cy using next_rec_accepts [OF chy b] by simp_all
      have nc: "\<not> s_closed (hsub (consumers s' y))"
        using c'(2) a(7) by (simp add: on_channel_def)
      have "y \<in> set (observers (hubs s h))" using a(7) by (simp add: on_channel_def)
      then have "y \<in> set (observers (hubs s' h))"
        using s'(1) a(2) nc unfolding frame_def by blast
      then have "on_channel s' h y chy"
        using c' a(7) by (simp add: on_channel_def)
      moreover have "cfg s' = cfg s" "observer (sockets s' k) = h" "h < next_hub s'"
        "\<not> isStopped (hubs s' h)" "distinct (observers (hubs s' h))"
        using s'(1) a(1-4) unfolding frame_def by auto
      ultimately show ?thesis by simp
    qed
    show ?thesis using rx ry ue keep by blast
  qed
  show ?thesis using m fwd iso by blast
qed

theorem filter_isolation_witness:
  "deserializer (cfg demo_mux_text) ''x'' = Inr (Str ''x'') \<and> \<not> calm demo_mux_text
   \<and> unsub_encodes demo_mux_text 0 (Str ''x'')
   \<and> on_channel demo_mux_text 0 1 chan_x \<and> on_channel demo_mux_text 0 2 chan_y
   \<and> messageFilter chan_x (Str ''x'') = Inl (Str ''boom'')
   \<and> (\<exists>s'. onmessage 0 ''x'' demo_mux_text = Some s'
          \<and> received (consumers s' 1) = [Error (Str ''boom'')]
          \<and> received (consumers s' 2) = []
          \<and> (\<exists>s''. onmessage 0 ''y'' s' = Some s''
                 \<and> received (consumers s'' 2) = [Next (Str ''y'')]))"
proof -
  have d: "deserializer (cfg demo_mux_text) ''x'' = Inr (Str ''x'')"
    using demo_mux_text_facts by (simp add: demo_cfg_def demo_deserializer_def)
  have ue: "unsub_encodes demo_mux_text 0 w" for w
    using demo_mux_text_facts
    by (simp add: unsub_encodes_def unsub_ok_def chan_x_def chan_y_def demo_cfg_def
        demo_serializer_def)
  have h: "observer (sockets demo_mux_text 0) = 0 \<and> 0 < next_hub demo_mux_text
        \<and> \<not> isStopped (hubs demo_mux_text 0) \<and> distinct (observers (hubs demo_mux_text 0))
        \<and> unsub_encodes demo_mux_text 0 (Str ''x'')
        \<and> on_channel demo_mux_text 0 1 chan_x \<and> on_channel demo_mux_text 0 2 chan_y"
    using demo_mux_text_facts ue
    by (simp add: on_channel_def chan_x_def chan_y_def)
  have nc: "\<not> calm demo_mux_text"
  proof -
    have "serializer demo_cfg (Num 0) = Inl (Num 0)" by (simp add: demo_cfg_def demo_serializer_def)
    then have "\<not> encodes_all demo_cfg" unfolding encodes_all_def by (metis Inl_Inr_False)
    then show ?thesis using demo_mux_text_facts by (simp add: calm_def)
  qed
  have f: "messageFilter chan_x (Str ''x'') = Inl (Str ''boom'')"
    "messageFilter chan_y (Str ''x'') = Inr False" "messageFilter chan_y (Str ''y'') = Inr True"
    by (simp_all add: chan_x_def chan_y_def filter_x_def filter_y_def)
  from filter_isolation [OF d, of 0 0 1 chan_x 2 chan_y] h obtain s1 where
    s1: "onmessage 0 ''x'' demo_mux_text = Some s1"
      "received (consumers s1 1) = received (consumers demo_mux_text 1) @ outcome (Str ''x'') (messageFilter chan_x (Str ''x''))"
      "received (consumers s1 2) = received (consumers demo_mux_text 2) @ outcome (Str ''x'') (messageFilter chan_y (Str ''x''))"
      "\<forall>w. unsub_encodes demo_mux_text 0 w \<longrightarrow> unsub_encodes s1 0 w"
      "\<forall>b. messageFilter chan_y (Str ''x'') = Inr b \<longrightarrow>
           on_channel s1 0 2 chan_y \<and> deserializer (cfg s1) = deserializer (cfg demo_mux_text)
           \<and> observer (sockets s1 0) = 0 \<and> 0 < next_hub s1
           \<and> \<not> isStopped (hubs s1 0) \<and> distinct (observers (hubs s1 0))"
    by blast
  have r1: "received (consumers s1 1) = [Error (Str ''boom'')]" "received (consumers s1 2) = []"
    using s1(2,3) f demo_mux_text_facts by simp_all
  from s1(5) f(2) have k0: "on_channel s1 0 2 chan_y \<and> deserializer (cfg s1) = deserializer (cfg demo_mux_text)
           \<and> observer (sockets s1 0) = 0 \<and> 0 < next_hub s1
           \<and> \<not> isStopped (hubs s1 0) \<and> distinct (observers (hubs s1 0))"
    by blast
  have d2: "deserializer (cfg s1) ''y'' = Inr (Str ''y'')"
    using k0 demo_mux_text_facts(1) by (simp add: demo_cfg_def demo_deserializer_def)
  have h2: "observer (sockets s1 0) = 0 \<and> 0 < next_hub s1
        \<and> \<not> isStopped (hubs s1 0) \<and> distinct (observers (hubs s1 0))
        \<and> unsub_encodes s1 0 (Str ''y'')
        \<and> on_channel s1 0 2 chan_y \<and> on_channel s1 0 2 chan_y"
    using k0 s1(4) ue by blast
  from filter_isolation [OF d2, of 0 0 2 chan_y 2 chan_y] h2 obtain s2 where
    s2: "onmessage 0 ''y'' s1 = Some s2"
      "received (consumers s2 2) = received (consumers s1 2) @ outcome (Str ''y'') (messageFilter chan_y (Str ''y''))"
    by blast
  have "received (consumers s2 2) = [Next (Str ''y'')]"
    using s2(2) r1(2) f(3) by simp
  with s1(1) r1 s2(1) h f(1) d nc show ?thesis by simp
qed



text \<open>
  C5, as stated, fails in its second half. After the catch of line 233 has passed the
  exception to the consumer, \<^verbatim>\<open>multiplex\<close> goes on to \<^verbatim>\<open>self.subscribe\<close> at line 237: the
  filtered view is attached to the output Subject, whose \<open>observers\<close> go from \<open>[0]\<close> to
  \<open>[0, 1]\<close>. The teardown, added to the already closed \<^verbatim>\<open>observer\<close>, then runs at once, detaches
  the view and sends the unsubscribe message on the open socket.
\<close>

theorem submsg_failure_attaches_counterexample:
  "multiplex (Inl (Str ''boom'')) (Inr (Str ''unsubX'')) filter_x demo_open = Some demo_boom
   \<and> outer_error ws_next 1 (Str ''boom'') (alloc_consumer (Some chan_boom) demo_open)
       = Some demo_boom_errored
   \<and> received (consumers demo_boom_errored 1) = [Error (Str ''boom'')]
   \<and> subscribe_internal 1 demo_boom_errored = Some demo_boom_attached
   \<and> p_output demo_boom_attached = 0
   \<and> observers (hubs demo_open 0) = [0] \<and> observers (hubs demo_boom_attached 0) = [0, 1]
   \<and> teardown ws_next 1 demo_boom_attached = Some demo_boom
   \<and> sent (sockets demo_open 0) = [] \<and> sent (sockets demo_boom 0) = [''unsubX'']
   \<and> mux_calls demo_open = [] \<and> mux_calls demo_boom = [UnsubMsg 1 (Str ''unsubX'')]"
  using demo_boom_steps demo_boom_facts demo_open_facts by simp

text \<open>
  C5, amended. Subscribing to a channel whose subscribe-message producer throws \<open>err\<close>
  returns, in every state; the channel's own consumer has received exactly the error
  \<open>err\<close>; the filtered view that line 237 attaches is detached again before the call
  returns, so that at the end no Subject lists the consumer (if none listed its number
  before); and the consumer's subscriber is stopped, so that a value, an error or a
  completion that a Subject would pass to it leaves the state as it is.
\<close>

theorem submsg_failure_errors_consumer:
  "\<exists>s'. multiplex (Inl err) um f s = Some s'
           \<and> received (consumers s' (next_consumer s)) = [Error err]
           \<and> (\<forall>v. consumer_next ws_next (next_consumer s) v s' = Some s')
           \<and> (\<forall>n. consumer_stop ws_next (next_consumer s) n s' = Some s')
           \<and> ((\<forall>h. next_consumer s \<notin> set (observers (hubs s h)))
                \<longrightarrow> (\<forall>h. next_consumer s \<notin> set (observers (hubs s' h))))"
proof -
  define c where "c = next_consumer s"
  define ch where "ch = \<lparr>unsubMsg = um, messageFilter = f,
                        o_isStopped = False, o_closed = False, o_teardown = False\<rparr>"
  define s0 where "s0 = alloc_consumer (Some ch) s"
  define s1 where "s1 = chan_upd c (\<lambda>x. x\<lparr>o_isStopped := True, o_closed := True\<rparr>)
                          (notify c (Error err) (chan_upd c (\<lambda>x. x\<lparr>o_isStopped := True\<rparr>) s0))"
  define V where "V = (\<lambda>t::ws. received (consumers t c) = [Error err]
      \<and> (\<exists>x. chan (consumers t c) = Some x \<and> o_isStopped x \<and> o_closed x)
      \<and> (s_closed (hsub (consumers t c)) \<longrightarrow> s_isStopped (hsub (consumers t c))))"
  define fresh where "fresh = (\<forall>h. c \<notin> set (observers (hubs s h)))"
  have any: "\<And>u t t'. ws_next u t = Some t' \<Longrightarrow> grows (\<lambda>e. True) t t'"
    by (rule ws_next_grows_any)
  have Vg: "V t'" if "grows (\<lambda>e. True) t t'" "V t" for t t'
  proof -
    from that(1) obtain es where
      g: "\<forall>d. received (consumers t' d) = received (consumers t d) @ notes_of d es"
        "\<forall>d. frozen (consumers t d) \<longrightarrow> notes_of d es = []"
        "\<forall>d. rec_step (consumers t d) (consumers t' d)"
      by (rule growsD)
    from that(2) obtain x where x: "chan (consumers t c) = Some x" "o_isStopped x" "o_closed x"
      "received (consumers t c) = [Error err]"
      "s_closed (hsub (consumers t c)) \<longrightarrow> s_isStopped (hsub (consumers t c))"
      unfolding V_def by blast
    have "frozen (consumers t c)" using x by (simp add: frozen_def)
    then have r: "received (consumers t' c) = [Error err]" using g(1,2) x(4) by simp
    have rs: "rec_step (consumers t c) (consumers t' c)" using g(3) by blast
    have "\<exists>y. chan (consumers t' c) = Some y \<and> o_isStopped y \<and> o_closed y"
      using rs x(1-3) unfolding rec_step_def by (cases "chan (consumers t' c)") auto
    moreover have "s_closed (hsub (consumers t' c)) \<longrightarrow> s_isStopped (hsub (consumers t' c))"
      using rs x(5) unfolding rec_step_def by blast
    ultimately show ?thesis using r unfolding V_def by blast
  qed
  have Rg: "registered_ok t' c" if "grows (\<lambda>e. True) t t'" "registered_ok t c" for t t'
    using that unfolding grows_def by blast
  have Fg: "finalizers (hsub (consumers t' c)) = []"
    if "grows (\<lambda>e. True) t t'" "finalizers (hsub (consumers t c)) = []" for t t'
  proof -
    have "rec_step (consumers t c) (consumers t' c)" using that(1) unfolding grows_def by blast
    then show ?thesis using that(2) unfolding rec_step_def by simp
  qed
  have f0: "consumers s0 = (consumers s)(c := new_consumer (Some ch))" "hubs s0 = hubs s"
    by (simp_all add: s0_def alloc_consumer_def c_def)
  have e1: "outer_error ws_next c err s0 = Some s1"
    using f0(1)
    by (simp add: outer_error_def outer_stop_def outer_unsubscribe_def s1_def chan_upd_def
        notify_def new_consumer_def ch_def consumer_upd_def)
  have f1: "consumers s1 = (consumers s)(c := \<lparr>received = [Error err], hsub = new_subscriber,
                 chan = Some (ch\<lparr>o_isStopped := True, o_closed := True\<rparr>)\<rparr>)"
    "hubs s1 = hubs s"
    using f0 by (simp_all add: s1_def chan_upd_def notify_def new_consumer_def consumer_upd_def)
  have v1: "V s1" "finalizers (hsub (consumers s1 c)) = []"
    using f1 by (simp_all add: V_def new_subscriber_def)
  have r1: "fresh \<longrightarrow> registered_ok s1 c"
    using registered_ok_fresh [of c s1] f1(2) by (simp add: fresh_def)
  text \<open>\<^verbatim>\<open>_connectSocket\<close>, when there is no socket\<close>
  have "\<exists>a. (if p_socket s1 = None then connectSocket s1 else Some s1) = Some a \<and> V a
          \<and> finalizers (hsub (consumers a c)) = [] \<and> (fresh \<longrightarrow> registered_ok a c)"
  proof (cases "p_socket s1 = None")
    case False
    have "(if p_socket s1 = None then connectSocket s1 else Some s1) = Some s1"
      using if_not_P [OF False] .
    then show ?thesis using v1 r1 by blast
  next
    case True
    show ?thesis
    proof (cases "WebSocketCtor (cfg s1)")
      case None
      let ?a = "s1\<lparr>sockets := (sockets s1)(next_socket s1 := new_socket (p_output s1)),
                  p_socket := Some (next_socket s1), next_socket := Suc (next_socket s1)\<rparr>"
      have "connectSocket s1 = Some ?a" using None by (simp add: connectSocket_def)
      moreover have "V ?a" "finalizers (hsub (consumers ?a c)) = []"
        using v1 by (simp_all add: V_def)
      moreover have "fresh \<longrightarrow> registered_ok ?a c"
        using r1 by (simp add: registered_ok_def)
      ultimately show ?thesis using True by simp
    next
      case (Some e)
      have "\<exists>a. hub_error ws_next (p_output s1) e s1 = Some a"
        by (rule hub_error_total) (rule ws_next_total)
      then obtain a where a: "hub_error ws_next (p_output s1) e s1 = Some a" by blast
      have g: "grows (\<lambda>e. True) s1 a"
        by (rule hub_error_grows [OF any _ _ a]) simp_all
      have "connectSocket s1 = Some a" using Some a by (simp add: connectSocket_def)
      then show ?thesis using True Vg [OF g v1(1)] Fg [OF g v1(2)] Rg [OF g] r1 by simp
    qed
  qed
  then obtain a where
    a: "(if p_socket s1 = None then connectSocket s1 else Some s1) = Some a" "V a"
      "finalizers (hsub (consumers a c)) = []" "fresh \<longrightarrow> registered_ok a c"
    by blast
  text \<open>\<^verbatim>\<open>this._output.subscribe(subscriber)\<close>\<close>
  define h where "h = p_output a"
  have "\<exists>b. hub_subscribe h c a = Some b \<and> V b \<and> (fresh \<longrightarrow> registered_ok b c)"
  proof (cases "hasError (hubs a h) \<or> isStopped (hubs a h)")
    case True
    define n where "n = (if hasError (hubs a h) then Error (thrownError (hubs a h)) else Complete)"
    have hs: "hub_subscribe h c a = consumer_stop ws_next c n a"
      using True by (auto simp: hub_subscribe_def n_def consumer_error_def consumer_complete_def)
    have "\<exists>b. consumer_stop ws_next c n a = Some b"
      by (rule consumer_stop_total) (rule ws_next_total)
    then obtain b where b: "consumer_stop ws_next c n a = Some b" by blast
    have g: "grows (\<lambda>e. True) a b"
      by (rule consumer_stop_grows [OF any _ _ b]) simp_all
    show ?thesis using hs b Vg [OF g a(2)] Rg [OF g] a(4) by simp
  next
    case False
    define a1 where "a1 = hub_upd h (\<lambda>x. x\<lparr>observers := observers x @ [c]\<rparr>) a"
    define b where "b = hsub_add c (RemoveFrom h) a1"
    have hs: "hub_subscribe h c a = Some b"
      using False by (simp add: hub_subscribe_def b_def a1_def)
    have vb: "V b" using a(2) by (auto simp: V_def b_def a1_def hsub_add_def Let_def)
    have rb: "registered_ok b c" if fr: fresh
    proof -
      have ra: "registered_ok a c" using a(4) fr by blast
      have un: "c \<notin> set (observers (hubs a g))" for g
        using registered_ok_unreg [OF ra a(3)] .
      have z: "count_list (observers (hubs a g)) c = 0" for g
        using un [of g] count_list_pos [of "observers (hubs a g)" c] by simp
      show ?thesis
      proof (cases "s_closed (hsub (consumers a c))")
        case True
        then have "b = hub_upd h (\<lambda>x. x\<lparr>observers := remove1 c (observers x)\<rparr>) a1"
          by (simp add: b_def hsub_add_def a1_def)
        then have "count_list (observers (hubs b g)) c = 0" for g
          using z [of g] z [of h] by (simp add: a1_def count_list_remove1_self)
        then show ?thesis by (simp add: registered_ok_def)
      next
        case nc: False
        then have e: "b = consumer_upd c (\<lambda>x. x\<lparr>hsub := (hsub (consumers a1 c))\<lparr>finalizers := finalizers (hsub (consumers a1 c)) @ [RemoveFrom h]\<rparr>\<rparr>) a1"
          by (simp add: b_def hsub_add_def a1_def Let_def)
        have "count_list (observers (hubs b g)) c = (if g = h then 1 else 0)" for g
          using z [of g] z [of h] by (simp add: e a1_def)
        moreover have "\<not> s_closed (hsub (consumers b c))"
          "RemoveFrom h \<in> set (finalizers (hsub (consumers b c)))"
          using nc by (simp_all add: e a1_def)
        ultimately show ?thesis by (simp add: registered_ok_def)
      qed
    qed
    show ?thesis using hs vb rb by blast
  qed
  then obtain b where b: "hub_subscribe h c a = Some b" "V b" "fresh \<longrightarrow> registered_ok b c"
    by blast
  text \<open>\<^verbatim>\<open>subscriber.add\<close> of the closure of lines 377-385\<close>
  define d where "d = hsub_add c Refcount b"
  have si: "subscribe_internal c s1 = Some d"
    using a(1) b(1) by (simp add: subscribe_internal_def d_def h_def)
  have vd: "V d \<and> (fresh \<longrightarrow> registered_ok d c)"
  proof (cases "s_closed (hsub (consumers b c))")
    case True
    then have e: "d = refcount b" by (simp add: d_def hsub_add_def)
    have g: "grows (\<lambda>e. True) b d" unfolding e by (rule grows_refcount) simp
    show ?thesis using Vg [OF g b(2)] Rg [OF g] b(3) by blast
  next
    case False
    then have e: "d = consumer_upd c (\<lambda>x. x\<lparr>hsub := (hsub (consumers b c))\<lparr>finalizers := finalizers (hsub (consumers b c)) @ [Refcount]\<rparr>\<rparr>) b"
      by (simp add: d_def hsub_add_def Let_def)
    have "V d" using b(2) False by (simp add: V_def e)
    moreover have "registered_ok b c \<longrightarrow> registered_ok d c"
      using False by (simp add: registered_ok_def e)
    ultimately show ?thesis using b(3) by blast
  qed
  text \<open>the teardown, added to the closed \<^verbatim>\<open>observer\<close>\<close>
  from vd obtain x where x: "chan (consumers d c) = Some x" "o_isStopped x" "o_closed x"
    unfolding V_def by blast
  have "\<exists>t. teardown ws_next c d = Some (hsub_unsubscribe c t) \<and> V t
           \<and> (fresh \<longrightarrow> registered_ok t c)"
  proof (cases "unsubMsg x")
    case (Inl e)
    then have "teardown ws_next c d = Some (hsub_unsubscribe c d)"
      using x by (simp add: teardown_def)
    then show ?thesis using vd by blast
  next
    case (Inr u)
    let ?d = "d\<lparr>mux_calls := mux_calls d @ [UnsubMsg c u]\<rparr>"
    from ws_next_total [of u ?d] obtain t where t: "ws_next u ?d = Some t" by blast
    have g: "grows (\<lambda>e. True) ?d t" using any [OF t] .
    have "V ?d" "fresh \<longrightarrow> registered_ok ?d c"
      using vd by (simp_all add: V_def registered_ok_def)
    then have "V t" "fresh \<longrightarrow> registered_ok t c"
      using Vg [OF g] Rg [OF g] by blast+
    moreover have "teardown ws_next c d = Some (hsub_unsubscribe c t)"
      using x Inr t by (simp add: teardown_def)
    ultimately show ?thesis by blast
  qed
  then obtain t where
    t: "teardown ws_next c d = Some (hsub_unsubscribe c t)" "V t" "fresh \<longrightarrow> registered_ok t c"
    by blast
  define s' where "s' = hsub_unsubscribe c t"
  have g: "grows (\<lambda>e. True) t s'" unfolding s'_def by (rule grows_hsub_unsubscribe) simp
  have vs: "V s'" "fresh \<longrightarrow> registered_ok s' c"
    using Vg [OF g t(2)] Rg [OF g] t(3) by blast+
  have cl: "s_closed (hsub (consumers s' c))"
    using hsub_unsubscribe_effect [of t c] by (simp add: s'_def unsub_sub_def)
  then have st: "s_isStopped (hsub (consumers s' c))" using vs(1) unfolding V_def by blast
  have m: "multiplex (Inl err) um f s = Some s'"
    using e1 si x t(1)
    by (simp add: multiplex_def Let_def s0_def [symmetric] c_def [symmetric] ch_def [symmetric]
        s'_def)
  have "consumer_next ws_next c v s' = Some s'" for v
    using st by (simp add: consumer_next_def)
  moreover have "consumer_stop ws_next c n s' = Some s'" for n
    using st by (simp add: consumer_stop_def)
  moreover have "received (consumers s' c) = [Error err]" using vs(1) unfolding V_def by blast
  moreover have "fresh \<longrightarrow> (\<forall>h. c \<notin> set (observers (hubs s' h)))"
    using vs(2) cl registered_ok_closed by blast
  ultimately show ?thesis using m unfolding fresh_def c_def by blast
qed

theorem submsg_failure_errors_consumer_witness:
  "(\<forall>h. next_consumer demo_open \<notin> set (observers (hubs demo_open h)))
   \<and> multiplex (Inl (Str ''boom'')) (Inr (Str ''unsubX'')) filter_x demo_open = Some demo_boom
   \<and> received (consumers demo_boom 1) = [Error (Str ''boom'')]
   \<and> consumer_next ws_next 1 (Str ''x'') demo_boom = Some demo_boom
   \<and> consumer_stop ws_next 1 Complete demo_boom = Some demo_boom
   \<and> (\<forall>h. 1 \<notin> set (observers (hubs demo_boom h)))"
proof -
  have fr: "\<forall>h. next_consumer demo_open \<notin> set (observers (hubs demo_open h))"
    using demo_open_fresh by simp
  from submsg_failure_errors_consumer [of "Str ''boom''" "Inr (Str ''unsubX'')" filter_x demo_open]
  obtain s' where
    r: "multiplex (Inl (Str ''boom'')) (Inr (Str ''unsubX'')) filter_x demo_open = Some s'"
      "received (consumers s' (next_consumer demo_open)) = [Error (Str ''boom'')]"
      "\<forall>v. consumer_next ws_next (next_consumer demo_open) v s' = Some s'"
      "\<forall>n. consumer_stop ws_next (next_consumer demo_open) n s' = Some s'"
      "(\<forall>h. next_consumer demo_open \<notin> set (observers (hubs demo_open h)))
                \<longrightarrow> (\<forall>h. next_consumer demo_open \<notin> set (observers (hubs s' h)))"
    by blast
  have e: "s' = demo_boom" using r(1) demo_boom_steps(4) by simp
  have "\<forall>h. 1 \<notin> set (observers (hubs demo_boom h))"
    using r(5) fr e demo_open_fresh(1) by simp
  then show ?thesis
    using r(1-4) fr e demo_open_fresh(1) by simp
qed

end
